theory Spec2Isabelle
  imports Main
begin

unbundle bit_operations_syntax

section \<open>steady::vector, the persistent vector of steady\_vector.h\<close>

text \<open>
  The model follows the second header of the file (namespace \<open>steady\<close>).

  \<^item> \<open>size_t\<close> values (sizes, indices, counts) are natural numbers: a vector stores
    its elements in memory, so a size never reaches the wrap-around of \<open>size_t\<close>.
    The shift is an \<open>int\<close>, as in the source (it is negative for the empty vector).
  \<^item> Nodes live in an explicit store: \<open>new leaf_node<T>(...)\<close> and
    \<open>new inode<T>(...)\<close> append to the store and return the fresh address. A
    \<open>node_ref\<close> holds an address, and two handles are pointer-equal when their
    addresses are equal. The reference counters and the deletion of a node whose
    counter reaches zero are not modelled: a node that a handle refers to is never
    deleted, which is all the operations below rely on.
  \<^item> A \<open>STEADY_ASSERT\<close> is a failure branch of the model
    (\<open>Inl Assertion_failed\<close>), with one exception: the self tests of the class
    invariant, which are the calls \<open>STEADY_ASSERT(check_invariant())\<close> and the
    tests of the shift in the constructor \<open>vector(root, size, shift)\<close>, are not
    executed. The invariant is stated as a predicate and proved of every result
    instead.
  \<^item> The value-initialised element \<open>T{}\<close> that pads a leaf is the parameter \<open>d\<close>.
\<close>

subsection \<open>Constants\<close>

definition BRANCHING_FACTOR_SHIFT :: int where
  "BRANCHING_FACTOR_SHIFT = 5"

definition BRANCHING_FACTOR :: nat where
  "BRANCHING_FACTOR = push_bit (nat BRANCHING_FACTOR_SHIFT) 1"

definition BRANCHING_FACTOR_MASK :: nat where
  "BRANCHING_FACTOR_MASK = BRANCHING_FACTOR - 1"

definition EMPTY_TREE_SHIFT :: int where
  "EMPTY_TREE_SHIFT = - BRANCHING_FACTOR_SHIFT"

definition LEAF_NODE_SHIFT :: int where
  "LEAF_NODE_SHIFT = 0"

definition LOWEST_LEVEL_INODE_SHIFT :: int where
  "LOWEST_LEVEL_INODE_SHIFT = BRANCHING_FACTOR_SHIFT"

subsection \<open>Utility functions declared in the header, defined outside it\<close>

text \<open>
  Modelled from the spec: \<open>divide_round_up\<close> is only declared in the header. The
  spec gives the block count of a vector as the ceiling of \<open>size / B\<close>.
\<close>

definition divide_round_up :: "nat \<Rightarrow> nat \<Rightarrow> nat" where
  "divide_round_up val align = (val + align - 1) div align"

text \<open>
  Modelled from the spec: \<open>shift_to_max_size\<close> is only declared in the header. The
  spec: \<open>shift_to_max_size(shift) = B^(shift/SHIFT + 1)\<close>, the capacity of a tree
  rooted at that shift.
\<close>

definition shift_to_max_size :: "int \<Rightarrow> nat" where
  "shift_to_max_size shift = BRANCHING_FACTOR ^ nat (shift div BRANCHING_FACTOR_SHIFT + 1)"

text \<open>
  Modelled from the spec: \<open>vector_size_to_shift\<close> is only declared in the header. The
  spec: the root shift for a sequence of size \<open>n\<close> is the smallest non-negative
  multiple of \<open>SHIFT\<close> such that \<open>B^(shift/SHIFT + 1) \<ge> n\<close>; for \<open>n = 0\<close> it is
  \<open>EMPTY_SHIFT\<close>. The search tries the multiples \<open>0, SHIFT, 2 * SHIFT, ...\<close> in turn.
\<close>

function first_fitting_level :: "nat \<Rightarrow> nat \<Rightarrow> nat" where
  "first_fitting_level n l =
     (if n \<le> shift_to_max_size (int l * BRANCHING_FACTOR_SHIFT) then l
      else first_fitting_level n (l + 1))"
  by pat_completeness auto
termination
proof (relation "measure (\<lambda>(n, l). n - shift_to_max_size (int l * BRANCHING_FACTOR_SHIFT))")
  show "wf (measure (\<lambda>(n, l). n - shift_to_max_size (int l * BRANCHING_FACTOR_SHIFT)))"
    by simp
next
  fix n l :: nat
  assume a: "\<not> n \<le> shift_to_max_size (int l * BRANCHING_FACTOR_SHIFT)"
  have "shift_to_max_size (int l * BRANCHING_FACTOR_SHIFT)
        < shift_to_max_size (int (l + 1) * BRANCHING_FACTOR_SHIFT)"
    by (simp add: shift_to_max_size_def BRANCHING_FACTOR_SHIFT_def BRANCHING_FACTOR_def nat_add_distrib)
  with a show "((n, l + 1), (n, l))
      \<in> measure (\<lambda>(n, l). n - shift_to_max_size (int l * BRANCHING_FACTOR_SHIFT))"
    by simp
qed

declare first_fitting_level.simps [simp del]

definition vector_size_to_shift :: "nat \<Rightarrow> int" where
  "vector_size_to_shift n =
     (if n = 0 then EMPTY_TREE_SHIFT
      else int (first_fitting_level n 0) * BRANCHING_FACTOR_SHIFT)"

subsection \<open>Nodes, handles and the store\<close>

datatype node_type = null_node | inode | leaf_node

text \<open>A \<open>node_ref<T>\<close>: at most one of its two pointers is set.\<close>

datatype node_ref = Null_ref | Inode_ref nat | Leaf_ref nat

fun get_type :: "node_ref \<Rightarrow> node_type" where
  "get_type Null_ref = null_node"
| "get_type (Inode_ref a) = inode"
| "get_type (Leaf_ref a) = leaf_node"

text \<open>
  The store: the \<open>_values\<close> array of every leaf node and the \<open>_children\<close> array of
  every inode allocated so far, by address.
\<close>

record 'a heap =
  leaf_nodes :: "'a list list"
  inodes :: "node_ref list list"

definition empty_heap :: "'a heap" where
  "empty_heap = \<lparr>leaf_nodes = [], inodes = []\<rparr>"

datatype error =
    Assertion_failed
  | Undefined_behaviour
  | Unbounded_recursion

text \<open>
  \<open>Assertion_failed\<close>: a \<open>STEADY_ASSERT\<close> does not hold.
  \<open>Undefined_behaviour\<close>: the source follows a pointer to no node, reads an array
  outside its bounds, or shifts by a negative count.
  \<open>Unbounded_recursion\<close>: the recursion of the source never reaches its base case.
\<close>

definition new_leaf_node :: "'a heap \<Rightarrow> 'a list \<Rightarrow> 'a heap \<times> node_ref" where
  "new_leaf_node h vals =
     (h\<lparr>leaf_nodes := leaf_nodes h @ [vals]\<rparr>, Leaf_ref (length (leaf_nodes h)))"

definition new_inode :: "'a heap \<Rightarrow> node_ref list \<Rightarrow> 'a heap \<times> node_ref" where
  "new_inode h children =
     (h\<lparr>inodes := inodes h @ [children]\<rparr>, Inode_ref (length (inodes h)))"

text \<open>\<open>node_ref::get_inode\<close> followed by a read of the node's children.\<close>

definition get_inode :: "'a heap \<Rightarrow> node_ref \<Rightarrow> error + node_ref list" where
  "get_inode h r =
     (case r of
        Inode_ref a \<Rightarrow>
          if a < length (inodes h) then Inr (inodes h ! a) else Inl Undefined_behaviour
      | _ \<Rightarrow> Inl Assertion_failed)"

text \<open>\<open>node_ref::get_leaf_node\<close> followed by a read of the node's values.\<close>

definition get_leaf_node :: "'a heap \<Rightarrow> node_ref \<Rightarrow> error + 'a list" where
  "get_leaf_node h r =
     (case r of
        Leaf_ref a \<Rightarrow>
          if a < length (leaf_nodes h) then Inr (leaf_nodes h ! a) else Inl Undefined_behaviour
      | _ \<Rightarrow> Inl Assertion_failed)"

definition get_child :: "node_ref list \<Rightarrow> nat \<Rightarrow> error + node_ref" where
  "get_child children index =
     (if index < BRANCHING_FACTOR \<and> index < length children then Inr (children ! index)
      else Inl Assertion_failed)"

definition make_leaf_node :: "'a heap \<Rightarrow> 'a list \<Rightarrow> 'a heap \<times> node_ref" where
  "make_leaf_node h vals = new_leaf_node h vals"

definition make_inode_from_array :: "'a heap \<Rightarrow> node_ref list \<Rightarrow> 'a heap \<times> node_ref" where
  "make_inode_from_array h children = new_inode h children"

text \<open>
  A braced initialiser of a \<open>std::array\<close> of \<open>BRANCHING_FACTOR\<close> entries: the entries
  given, then value-initialised ones.
\<close>

definition array_init :: "'b list \<Rightarrow> 'b \<Rightarrow> 'b list" where
  "array_init xs pad = xs @ replicate (BRANCHING_FACTOR - length xs) pad"

text \<open>\<open>(index >> shift) & BRANCHING_FACTOR_MASK\<close>, for a shift that is not negative.\<close>

definition slot_index :: "nat \<Rightarrow> int \<Rightarrow> nat" where
  "slot_index index shift = (drop_bit (nat shift) index) AND BRANCHING_FACTOR_MASK"

subsection \<open>The vector\<close>

record vector =
  v_root :: node_ref
  v_size :: nat
  v_shift :: int

text \<open>The default constructor: \<open>_root\<close> null, \<open>_size = 0\<close>, \<open>_shift = EMPTY_TREE_SHIFT\<close>.\<close>

definition empty_vector :: vector where
  "empty_vector = \<lparr>v_root = Null_ref, v_size = 0, v_shift = EMPTY_TREE_SHIFT\<rparr>"

text \<open>The constructor \<open>vector(root, size, shift)\<close>.\<close>

definition make_vector :: "node_ref \<Rightarrow> nat \<Rightarrow> int \<Rightarrow> vector" where
  "make_vector r n s = \<lparr>v_root = r, v_size = n, v_shift = s\<rparr>"

text \<open>An unchecked read of \<open>xs[i]\<close>, and a read of the range \<open>xs[pos .. pos + n)\<close>.\<close>

definition array_get :: "'b list \<Rightarrow> nat \<Rightarrow> error + 'b" where
  "array_get xs i = (if i < length xs then Inr (xs ! i) else Inl Undefined_behaviour)"

definition read_range :: "'b list \<Rightarrow> nat \<Rightarrow> nat \<Rightarrow> error + 'b list" where
  "read_range xs pos n =
     (if pos + n \<le> length xs then Inr (take n (drop pos xs)) else Inl Undefined_behaviour)"

text \<open>\<open>std::copy(first, last, dst.begin() + pos)\<close> with the range read into \<open>src\<close>.\<close>

definition copy_into :: "'b list \<Rightarrow> nat \<Rightarrow> 'b list \<Rightarrow> 'b list" where
  "copy_into dst pos src = take pos dst @ src @ drop (pos + length src) dst"

subsection \<open>Tree algorithms (namespace internals)\<close>

text \<open>
  The loop of \<open>find_leaf_node\<close>: it returns the node and the shift it stops at.
\<close>

function find_leaf_loop :: "'a heap \<Rightarrow> node_ref \<Rightarrow> int \<Rightarrow> nat \<Rightarrow> error + (node_ref \<times> int)" where
  "find_leaf_loop h node_it shift index =
     (if shift > 0 then
        (case get_inode h node_it of
           Inl e \<Rightarrow> Inl e
         | Inr children \<Rightarrow>
             (case get_child children (slot_index index shift) of
                Inl e \<Rightarrow> Inl e
              | Inr child \<Rightarrow> find_leaf_loop h child (shift - BRANCHING_FACTOR_SHIFT) index))
      else Inr (node_it, shift))"
  by pat_completeness auto
termination
  by (relation "measure (\<lambda>(h, node_it, shift, index). nat shift)")
     (auto simp: BRANCHING_FACTOR_SHIFT_def)

declare find_leaf_loop.simps [simp del]

definition find_leaf_node :: "'a heap \<Rightarrow> vector \<Rightarrow> nat \<Rightarrow> error + node_ref" where
  "find_leaf_node h original index =
     (if \<not> index < v_size original then Inl Assertion_failed
      else
        (case find_leaf_loop h (v_root original) (v_shift original) index of
           Inl e \<Rightarrow> Inl e
         | Inr (node_it, shift) \<Rightarrow>
             if shift = LEAF_NODE_SHIFT \<and> get_type node_it = leaf_node then Inr node_it
             else Inl Assertion_failed))"

function replace_leaf_node ::
  "'a heap \<Rightarrow> node_ref \<Rightarrow> int \<Rightarrow> nat \<Rightarrow> node_ref \<Rightarrow> error + ('a heap \<times> node_ref)" where
  "replace_leaf_node h node shift leaf_index0 new_leaf =
     (if get_type node = null_node then Inl Assertion_failed
      else if shift < 0 then Inl Undefined_behaviour
      else if shift = LEAF_NODE_SHIFT then
        (if get_type node = leaf_node then Inr (h, new_leaf) else Inl Assertion_failed)
      else
        (case get_inode h node of
           Inl e \<Rightarrow> Inl e
         | Inr cs \<Rightarrow>
             (case get_child cs (slot_index leaf_index0 shift) of
                Inl e \<Rightarrow> Inl e
              | Inr child \<Rightarrow>
                  (case replace_leaf_node h child (shift - BRANCHING_FACTOR_SHIFT)
                          leaf_index0 new_leaf of
                     Inl e \<Rightarrow> Inl e
                   | Inr (h1, child2) \<Rightarrow>
                       (case get_inode h1 node of
                          Inl e \<Rightarrow> Inl e
                        | Inr children \<Rightarrow>
                            Inr (make_inode_from_array h1
                                   (children[slot_index leaf_index0 shift := child2])))))))"
  by pat_completeness auto
termination
  by (relation "measure (\<lambda>(h, node, shift, leaf_index0, new_leaf). nat shift)")
     (auto simp: BRANCHING_FACTOR_SHIFT_def LEAF_NODE_SHIFT_def)

declare replace_leaf_node.simps [simp del]

function replace_value ::
  "'a heap \<Rightarrow> node_ref \<Rightarrow> int \<Rightarrow> nat \<Rightarrow> 'a \<Rightarrow> error + ('a heap \<times> node_ref)" where
  "replace_value h node shift index val =
     (if get_type node = null_node then Inl Assertion_failed
      else if shift < 0 then Inl Undefined_behaviour
      else if shift = LEAF_NODE_SHIFT then
        (case get_leaf_node h node of
           Inl e \<Rightarrow> Inl e
         | Inr vals \<Rightarrow>
             if slot_index index shift < length vals
             then Inr (new_leaf_node h (vals[slot_index index shift := val]))
             else Inl Assertion_failed)
      else
        (case get_inode h node of
           Inl e \<Rightarrow> Inl e
         | Inr cs \<Rightarrow>
             (case get_child cs (slot_index index shift) of
                Inl e \<Rightarrow> Inl e
              | Inr child \<Rightarrow>
                  (case replace_value h child (shift - BRANCHING_FACTOR_SHIFT) index val of
                     Inl e \<Rightarrow> Inl e
                   | Inr (h1, child2) \<Rightarrow>
                       (case get_inode h1 node of
                          Inl e \<Rightarrow> Inl e
                        | Inr children \<Rightarrow>
                            Inr (make_inode_from_array h1
                                   (children[slot_index index shift := child2])))))))"
  by pat_completeness auto
termination
  by (relation "measure (\<lambda>(h, node, shift, index, val). nat shift)")
     (auto simp: BRANCHING_FACTOR_SHIFT_def LEAF_NODE_SHIFT_def)

declare replace_value.simps [simp del]

function make_new_path :: "'a heap \<Rightarrow> int \<Rightarrow> node_ref \<Rightarrow> error + ('a heap \<times> node_ref)" where
  "make_new_path h shift leaf =
     (if get_type leaf \<noteq> leaf_node then Inl Assertion_failed
      else if shift = LEAF_NODE_SHIFT then Inr (h, leaf)
      else if shift < 0 then Inl Unbounded_recursion
      else
        (case make_new_path h (shift - BRANCHING_FACTOR_SHIFT) leaf of
           Inl e \<Rightarrow> Inl e
         | Inr (h1, a) \<Rightarrow> Inr (make_inode_from_array h1 (array_init [a] Null_ref))))"
  by pat_completeness auto
termination
  by (relation "measure (\<lambda>(h, shift, leaf). nat shift)")
     (auto simp: BRANCHING_FACTOR_SHIFT_def LEAF_NODE_SHIFT_def)

declare make_new_path.simps [simp del]

function append_leaf_node ::
  "'a heap \<Rightarrow> node_ref \<Rightarrow> int \<Rightarrow> nat \<Rightarrow> node_ref \<Rightarrow> error + ('a heap \<times> node_ref)" where
  "append_leaf_node h original shift index leaf =
     (if get_type original \<noteq> inode \<or> get_type leaf \<noteq> leaf_node then Inl Assertion_failed
      else if shift < 0 then Inl Undefined_behaviour
      else
        (case get_inode h original of
           Inl e \<Rightarrow> Inl e
         | Inr children \<Rightarrow>
             if shift = LOWEST_LEVEL_INODE_SHIFT
             then Inr (make_inode_from_array h (children[slot_index index shift := leaf]))
             else
               (case array_get children (slot_index index shift) of
                  Inl e \<Rightarrow> Inl e
                | Inr child \<Rightarrow>
                    if get_type child = null_node then
                      (case make_new_path h (shift - BRANCHING_FACTOR_SHIFT) leaf of
                         Inl e \<Rightarrow> Inl e
                       | Inr (h1, child2) \<Rightarrow>
                           Inr (make_inode_from_array h1
                                  (children[slot_index index shift := child2])))
                    else
                      (case append_leaf_node h child (shift - BRANCHING_FACTOR_SHIFT)
                              index leaf of
                         Inl e \<Rightarrow> Inl e
                       | Inr (h1, child2) \<Rightarrow>
                           Inr (make_inode_from_array h1
                                  (children[slot_index index shift := child2]))))))"
  by pat_completeness auto
termination
  by (relation "measure (\<lambda>(h, original, shift, index, leaf). nat (shift + BRANCHING_FACTOR_SHIFT))")
     (auto simp: BRANCHING_FACTOR_SHIFT_def)

declare append_leaf_node.simps [simp del]

definition push_back_leaf_node ::
  "'a heap \<Rightarrow> vector \<Rightarrow> node_ref \<Rightarrow> nat \<Rightarrow> error + ('a heap \<times> vector)" where
  "push_back_leaf_node h original new_leaf leaf_item_count =
     (if get_type new_leaf \<noteq> leaf_node
         \<or> (v_size original AND BRANCHING_FACTOR_MASK) \<noteq> 0
         \<or> \<not> leaf_item_count \<le> BRANCHING_FACTOR
      then Inl Assertion_failed
      else
        let original_size = v_size original;
            original_shift = v_shift original
        in
          if original_size = 0 then Inr (h, make_vector new_leaf leaf_item_count LEAF_NODE_SHIFT)
          else
            let max_values = shift_to_max_size original_shift;
                fits_in_root = (original_size + leaf_item_count \<le> max_values)
            in
              if fits_in_root then
                (case append_leaf_node h (v_root original) original_shift original_size new_leaf of
                   Inl e \<Rightarrow> Inl e
                 | Inr (h1, root) \<Rightarrow>
                     Inr (h1, make_vector root (original_size + leaf_item_count) original_shift))
              else
                (case make_new_path h original_shift new_leaf of
                   Inl e \<Rightarrow> Inl e
                 | Inr (h1, new_path) \<Rightarrow>
                     (case make_inode_from_array h1
                             (array_init [v_root original, new_path] Null_ref) of
                        (h2, new_root) \<Rightarrow>
                          Inr (h2, make_vector new_root (original_size + leaf_item_count)
                                     (original_shift + BRANCHING_FACTOR_SHIFT)))))"

definition push_back_1 :: "'a heap \<Rightarrow> 'a \<Rightarrow> vector \<Rightarrow> 'a \<Rightarrow> error + ('a heap \<times> vector)" where
  "push_back_1 h d original val =
     (let size = v_size original in
        if (size AND BRANCHING_FACTOR_MASK) \<noteq> 0 then
          (let shift = v_shift original in
             case replace_value h (v_root original) shift size val of
               Inl e \<Rightarrow> Inl e
             | Inr (h1, root) \<Rightarrow> Inr (h1, make_vector root (size + 1) shift))
        else
          (case make_leaf_node h (array_init [val] d) of
             (h1, leaf) \<Rightarrow> push_back_leaf_node h1 original leaf 1))"

subsection \<open>Batched append\<close>

text \<open>
  The buffer argument \<open>const T values[]\<close> is \<open>None\<close> for \<open>nullptr\<close> and
  \<open>Some buf\<close> for a pointer from which the elements \<open>buf\<close> can be read; reading
  past them is undefined behaviour.

  Step 1 of \<open>push_back_batch\<close>: if the last leaf is partially filled, pad it out.
  The result is the store, the vector \<open>result\<close> and \<open>source_pos\<close>.
  \<open>size & ~MASK\<close> is computed on the integers, where the complement exists.
\<close>

definition push_back_batch_pad ::
  "'a heap \<Rightarrow> 'a \<Rightarrow> vector \<Rightarrow> 'a list \<Rightarrow> nat \<Rightarrow> error + ('a heap \<times> vector \<times> nat)" where
  "push_back_batch_pad h d original buf count =
     (let result = original;
          source_pos = 0;
          last_leaf_size = v_size original AND BRANCHING_FACTOR_MASK
      in
        if last_leaf_size > 0 then
          (let last_leaf_node_index =
                 nat (int (v_size original) AND NOT (int BRANCHING_FACTOR_MASK));
               copy_count = min (BRANCHING_FACTOR - last_leaf_size) count
           in
             case find_leaf_node h result last_leaf_node_index of
               Inl e \<Rightarrow> Inl e
             | Inr prev_leaf \<Rightarrow>
                 (case get_leaf_node h prev_leaf of
                    Inl e \<Rightarrow> Inl e
                  | Inr prev_values \<Rightarrow>
                      (case read_range prev_values 0 last_leaf_size of
                         Inl e \<Rightarrow> Inl e
                       | Inr old_part \<Rightarrow>
                           (case read_range buf source_pos copy_count of
                              Inl e \<Rightarrow> Inl e
                            | Inr new_part \<Rightarrow>
                                (case new_leaf_node h
                                        (copy_into (copy_into (array_init [] d) 0 old_part)
                                           last_leaf_size new_part) of
                                   (h1, new_leaf) \<Rightarrow>
                                     (case replace_leaf_node h1 (v_root result) (v_shift result)
                                             last_leaf_node_index new_leaf of
                                        Inl e \<Rightarrow> Inl e
                                      | Inr (h2, new_root) \<Rightarrow>
                                          Inr (h2,
                                               make_vector new_root (v_size result + copy_count)
                                                 (v_shift result),
                                               source_pos + copy_count)))))))
        else Inr (h, result, source_pos))"

text \<open>Step 2: append entire leaf nodes while there are source values.\<close>

function push_back_batch_loop ::
  "'a heap \<Rightarrow> 'a \<Rightarrow> vector \<Rightarrow> 'a list \<Rightarrow> nat \<Rightarrow> nat \<Rightarrow> error + ('a heap \<times> vector)" where
  "push_back_batch_loop h d result buf source_pos count =
     (if source_pos < count then
        (if (v_size result AND BRANCHING_FACTOR_MASK) \<noteq> 0 then Inl Assertion_failed
         else
           let batch_count = min (count - source_pos) BRANCHING_FACTOR in
             case read_range buf source_pos batch_count of
               Inl e \<Rightarrow> Inl e
             | Inr part \<Rightarrow>
                 (case new_leaf_node h (copy_into (array_init [] d) 0 part) of
                    (h1, new_leaf) \<Rightarrow>
                      (case push_back_leaf_node h1 result new_leaf batch_count of
                         Inl e \<Rightarrow> Inl e
                       | Inr (h2, result2) \<Rightarrow>
                           push_back_batch_loop h2 d result2 buf
                             (source_pos + batch_count) count)))
      else Inr (h, result))"
  by pat_completeness auto
termination
  by (relation "measure (\<lambda>(h, d, result, buf, source_pos, count). count - source_pos)")
     (auto simp: BRANCHING_FACTOR_def BRANCHING_FACTOR_SHIFT_def)

declare push_back_batch_loop.simps [simp del]

definition push_back_batch ::
  "'a heap \<Rightarrow> 'a \<Rightarrow> vector \<Rightarrow> 'a list option \<Rightarrow> nat \<Rightarrow> error + ('a heap \<times> vector)" where
  "push_back_batch h d original vals count =
     (case vals of
        None \<Rightarrow> Inl Assertion_failed
      | Some buf \<Rightarrow>
          (case push_back_batch_pad h d original buf count of
             Inl e \<Rightarrow> Inl e
           | Inr (h1, result, source_pos) \<Rightarrow>
               (case push_back_batch_loop h1 d result buf source_pos count of
                  Inl e \<Rightarrow> Inl e
                | Inr (h2, result2) \<Rightarrow>
                    if v_size result2 = v_size original + count then Inr (h2, result2)
                    else Inl Assertion_failed)))"

subsection \<open>The public member functions of vector\<close>

text \<open>\<open>vector(const std::vector<T>& values)\<close>\<close>

definition vector_from_std_vector :: "'a heap \<Rightarrow> 'a \<Rightarrow> 'a list \<Rightarrow> error + ('a heap \<times> vector)" where
  "vector_from_std_vector h d vals =
     (case (if vals \<noteq> [] then push_back_batch h d empty_vector (Some vals) (length vals)
            else Inr (h, empty_vector)) of
        Inl e \<Rightarrow> Inl e
      | Inr (h1, this) \<Rightarrow>
          if v_size this = length vals then Inr (h1, this) else Inl Assertion_failed)"

text \<open>\<open>vector(const T values[], size_t count)\<close>\<close>

definition vector_from_array ::
  "'a heap \<Rightarrow> 'a \<Rightarrow> 'a list option \<Rightarrow> nat \<Rightarrow> error + ('a heap \<times> vector)" where
  "vector_from_array h d vals count =
     (if vals = None then Inl Assertion_failed
      else
        (case push_back_batch h d empty_vector vals count of
           Inl e \<Rightarrow> Inl e
         | Inr (h1, this) \<Rightarrow>
             if v_size this = count then Inr (h1, this) else Inl Assertion_failed))"

text \<open>The copy constructor: the same root, size and shift.\<close>

definition copy_vector :: "vector \<Rightarrow> vector" where
  "copy_vector rhs = \<lparr>v_root = v_root rhs, v_size = v_size rhs, v_shift = v_shift rhs\<rparr>"

definition get_block_count :: "vector \<Rightarrow> nat" where
  "get_block_count v = divide_round_up (v_size v) BRANCHING_FACTOR"

text \<open>
  \<open>get_block\<close> returns a pointer to the first value of a leaf: the values that can
  be read from it are the leaf's array.
\<close>

definition get_block :: "'a heap \<Rightarrow> vector \<Rightarrow> nat \<Rightarrow> error + 'a list" where
  "get_block h v block_index =
     (if \<not> get_block_count v > 0 \<or> \<not> block_index < get_block_count v then Inl Assertion_failed
      else
        (case find_leaf_node h v (block_index * BRANCHING_FACTOR) of
           Inl e \<Rightarrow> Inl e
         | Inr leaf \<Rightarrow> get_leaf_node h leaf))"

definition push_back :: "'a heap \<Rightarrow> 'a \<Rightarrow> vector \<Rightarrow> 'a \<Rightarrow> error + ('a heap \<times> vector)" where
  "push_back h d v val = push_back_1 h d v val"

function to_vec_loop ::
  "'a heap \<Rightarrow> vector \<Rightarrow> nat \<Rightarrow> nat \<Rightarrow> 'a list \<Rightarrow> error + 'a list" where
  "to_vec_loop h v index block_count result =
     (if index < block_count then
        (case get_block h v index of
           Inl e \<Rightarrow> Inl e
         | Inr valuesA \<Rightarrow>
             (let size = min BRANCHING_FACTOR (v_size v - index * BRANCHING_FACTOR) in
                case read_range valuesA 0 size of
                  Inl e \<Rightarrow> Inl e
                | Inr part \<Rightarrow> to_vec_loop h v (index + 1) block_count (result @ part)))
      else Inr result)"
  by pat_completeness auto
termination
  by (relation "measure (\<lambda>(h, v, index, block_count, result). block_count - index)") auto

declare to_vec_loop.simps [simp del]

definition to_vec :: "'a heap \<Rightarrow> vector \<Rightarrow> error + 'a list" where
  "to_vec h v = to_vec_loop h v 0 (get_block_count v) []"

text \<open>
  \<open>pop_back\<close>: \<open>&temp[0]\<close> is a pointer to the values of \<open>temp\<close>, and undefined
  behaviour for an empty \<open>temp\<close>.
\<close>

definition pop_back :: "'a heap \<Rightarrow> 'a \<Rightarrow> vector \<Rightarrow> error + ('a heap \<times> vector)" where
  "pop_back h d v =
     (if \<not> v_size v > 0 then Inl Assertion_failed
      else
        (case to_vec h v of
           Inl e \<Rightarrow> Inl e
         | Inr temp \<Rightarrow>
             if temp = [] then Inl Undefined_behaviour
             else vector_from_array h d (Some temp) (v_size v - 1)))"

function equal_loop :: "'a heap \<Rightarrow> vector \<Rightarrow> vector \<Rightarrow> nat \<Rightarrow> nat \<Rightarrow> error + bool" where
  "equal_loop h v rhs index block_count =
     (if index < block_count then
        (case get_block h v index of
           Inl e \<Rightarrow> Inl e
         | Inr valuesA \<Rightarrow>
             (case get_block h rhs index of
                Inl e \<Rightarrow> Inl e
              | Inr valuesB \<Rightarrow>
                  (let r = min BRANCHING_FACTOR (v_size v - index * BRANCHING_FACTOR) in
                     case read_range valuesA 0 r of
                       Inl e \<Rightarrow> Inl e
                     | Inr partA \<Rightarrow>
                         (case read_range valuesB 0 r of
                            Inl e \<Rightarrow> Inl e
                          | Inr partB \<Rightarrow>
                              if \<not> partA = partB then Inr False
                              else equal_loop h v rhs (index + 1) block_count))))
      else Inr True)"
  by pat_completeness auto
termination
  by (relation "measure (\<lambda>(h, v, rhs, index, block_count). block_count - index)") auto

declare equal_loop.simps [simp del]

text \<open>\<open>operator==\<close>: two handles of the same type hold the same pointer when they are equal.\<close>

definition operator_eq :: "'a heap \<Rightarrow> vector \<Rightarrow> vector \<Rightarrow> error + bool" where
  "operator_eq h v rhs =
     (if v_size v \<noteq> v_size rhs then Inr False
      else if v_size v = 0 then Inr True
      else if get_type (v_root v) \<noteq> get_type (v_root rhs) then Inr False
      else if get_type (v_root v) = inode \<and> v_root v = v_root rhs then Inr True
      else if get_type (v_root v) = leaf_node \<and> v_root v = v_root rhs then Inr True
      else equal_loop h v rhs 0 (get_block_count v))"

definition store :: "'a heap \<Rightarrow> vector \<Rightarrow> nat \<Rightarrow> 'a \<Rightarrow> error + ('a heap \<times> vector)" where
  "store h v index val =
     (if \<not> index < v_size v then Inl Assertion_failed
      else
        (case replace_value h (v_root v) (v_shift v) index val of
           Inl e \<Rightarrow> Inl e
         | Inr (h1, root) \<Rightarrow> Inr (h1, make_vector root (v_size v) (v_shift v))))"

text \<open>\<open>operator[]\<close>\<close>

definition operator_index :: "'a heap \<Rightarrow> vector \<Rightarrow> nat \<Rightarrow> error + 'a" where
  "operator_index h v index =
     (if \<not> index < v_size v then Inl Assertion_failed
      else
        (case find_leaf_node h v index of
           Inl e \<Rightarrow> Inl e
         | Inr leaf \<Rightarrow>
             (case get_leaf_node h leaf of
                Inl e \<Rightarrow> Inl e
              | Inr vals \<Rightarrow>
                  (let slot_index = index AND BRANCHING_FACTOR_MASK in
                     if slot_index < length vals then Inr (vals ! slot_index)
                     else Inl Assertion_failed))))"

text \<open>
  \<open>operator+\<close>: \<open>result\<close> is default-constructed, and assigned only when \<open>b\<close> is
  not empty. \<open>operator_plus_result\<close> is the function up to its last assertion,
  \<open>operator_plus\<close> the whole function.
\<close>

definition operator_plus_result ::
  "'a heap \<Rightarrow> 'a \<Rightarrow> vector \<Rightarrow> vector \<Rightarrow> error + ('a heap \<times> vector)" where
  "operator_plus_result h d a b =
     (let result = empty_vector in
        if v_size b = 0 then Inr (h, result)
        else
          (case to_vec h b of
             Inl e \<Rightarrow> Inl e
           | Inr v \<Rightarrow>
               if v = [] then Inl Undefined_behaviour
               else push_back_batch h d a (Some v) (length v)))"

definition operator_plus :: "'a heap \<Rightarrow> 'a \<Rightarrow> vector \<Rightarrow> vector \<Rightarrow> error + ('a heap \<times> vector)" where
  "operator_plus h d a b =
     (case operator_plus_result h d a b of
        Inl e \<Rightarrow> Inl e
      | Inr (h1, result) \<Rightarrow>
          if v_size result = v_size a + v_size b then Inr (h1, result)
          else Inl Assertion_failed)"

text \<open>
  \<open>vector::check_invariant\<close> with \<open>tree_check_invariant\<close>, without the tests of the
  reference counters: the conjunction of its assertions. The bound on the shift
  limits the size of a vector to \<open>B ^ 7\<close> values.
\<close>

definition check_invariant :: "vector \<Rightarrow> bool" where
  "check_invariant v =
     ((if get_type (v_root v) = null_node then v_size v = 0 else True)
      \<and> (if v_size v = 0 then get_type (v_root v) = null_node
         else get_type (v_root v) \<noteq> null_node)
      \<and> v_shift v \<ge> EMPTY_TREE_SHIFT \<and> v_shift v < 32
      \<and> v_shift v = vector_size_to_shift (v_size v))"

section \<open>Well-formed vectors\<close>

text \<open>
  The vectors that the operations build. A tree of level \<open>l\<close> is a leaf node for
  \<open>l = 0\<close> and an inode whose children are trees of level \<open>l - 1\<close> otherwise; it
  holds at most \<open>B ^ l\<close> leaf nodes. \<open>wf_tree h l r L\<close>: the handle \<open>r\<close> is a tree of
  level \<open>l\<close> in the store \<open>h\<close> with exactly \<open>L\<close> leaf nodes, packed to the left: full
  children first, then at most one partial child, then null handles.
\<close>

fun wf_tree :: "'a heap \<Rightarrow> nat \<Rightarrow> node_ref \<Rightarrow> nat \<Rightarrow> bool" where
  "wf_tree h 0 r L =
     (L = 1 \<and>
      (case r of
         Leaf_ref a \<Rightarrow> a < length (leaf_nodes h) \<and> length (leaf_nodes h ! a) = BRANCHING_FACTOR
       | _ \<Rightarrow> False))"
| "wf_tree h (Suc l) r L =
     (0 < L \<and> L \<le> BRANCHING_FACTOR ^ Suc l \<and>
      (case r of
         Inode_ref a \<Rightarrow>
           a < length (inodes h) \<and> length (inodes h ! a) = BRANCHING_FACTOR \<and>
           (\<forall>j \<in> {0..<BRANCHING_FACTOR}.
              if j < L div BRANCHING_FACTOR ^ l
              then wf_tree h l (inodes h ! a ! j) (BRANCHING_FACTOR ^ l)
              else if j = L div BRANCHING_FACTOR ^ l \<and> L mod BRANCHING_FACTOR ^ l \<noteq> 0
              then wf_tree h l (inodes h ! a ! j) (L mod BRANCHING_FACTOR ^ l)
              else inodes h ! a ! j = Null_ref)
       | _ \<Rightarrow> False))"

text \<open>
  The class invariant: the empty vector in its canonical encoding, or a tree of
  the level that the shift gives, with one leaf node per block, and the shift that
  \<open>check_invariant\<close> asserts.
\<close>

definition wf_vector :: "'a heap \<Rightarrow> vector \<Rightarrow> bool" where
  "wf_vector h v =
     (if v_size v = 0 then v_root v = Null_ref \<and> v_shift v = EMPTY_TREE_SHIFT
      else v_shift v = vector_size_to_shift (v_size v) \<and>
           wf_tree h (nat (v_shift v div BRANCHING_FACTOR_SHIFT)) (v_root v)
             (divide_round_up (v_size v) BRANCHING_FACTOR))"

text \<open>
  The slot of an inode of level \<open>Suc l\<close> on the way to the value \<open>index\<close>, the
  existence of the way to that value in a tree, and the address of the leaf node
  at its end.
\<close>

definition child_slot :: "nat \<Rightarrow> nat \<Rightarrow> nat" where
  "child_slot l index = index div BRANCHING_FACTOR div BRANCHING_FACTOR ^ l mod BRANCHING_FACTOR"

fun path_ok :: "'a heap \<Rightarrow> nat \<Rightarrow> node_ref \<Rightarrow> nat \<Rightarrow> bool" where
  "path_ok h 0 r index =
     (case r of
        Leaf_ref a \<Rightarrow> a < length (leaf_nodes h) \<and> length (leaf_nodes h ! a) = BRANCHING_FACTOR
      | _ \<Rightarrow> False)"
| "path_ok h (Suc l) r index =
     (case r of
        Inode_ref a \<Rightarrow>
          a < length (inodes h) \<and> length (inodes h ! a) = BRANCHING_FACTOR \<and>
          path_ok h l (inodes h ! a ! child_slot l index) index
      | _ \<Rightarrow> False)"

fun tree_leaf :: "'a heap \<Rightarrow> nat \<Rightarrow> node_ref \<Rightarrow> nat \<Rightarrow> nat" where
  "tree_leaf h 0 r index = (case r of Leaf_ref a \<Rightarrow> a | _ \<Rightarrow> 0)"
| "tree_leaf h (Suc l) r index =
     (case r of
        Inode_ref a \<Rightarrow> tree_leaf h l (inodes h ! a ! child_slot l index) index
      | _ \<Rightarrow> 0)"

text \<open>The value at \<open>index\<close> of a tree, and the values of a vector in order.\<close>

definition tree_get :: "'a heap \<Rightarrow> nat \<Rightarrow> node_ref \<Rightarrow> nat \<Rightarrow> 'a" where
  "tree_get h l r index = leaf_nodes h ! tree_leaf h l r index ! (index mod BRANCHING_FACTOR)"

definition contents :: "'a heap \<Rightarrow> vector \<Rightarrow> 'a list" where
  "contents h v =
     map (tree_get h (nat (v_shift v div BRANCHING_FACTOR_SHIFT)) (v_root v)) [0..<v_size v]"

text \<open>
  \<open>heap_le h h'\<close>: the store \<open>h'\<close> is \<open>h\<close> with further nodes allocated; every node
  of \<open>h\<close> is in \<open>h'\<close> at its address, unchanged.
\<close>

definition heap_le :: "'a heap \<Rightarrow> 'a heap \<Rightarrow> bool" where
  "heap_le h h' =
     (take (length (leaf_nodes h)) (leaf_nodes h') = leaf_nodes h \<and>
      take (length (inodes h)) (inodes h') = inodes h)"

text \<open>The canonical encoding that \<open>check_invariant\<close> asserts of root, size and shift.\<close>

definition canonical :: "vector \<Rightarrow> bool" where
  "canonical v =
     (if v_size v = 0 then get_type (v_root v) = null_node \<and> v_shift v = EMPTY_TREE_SHIFT
      else get_type (v_root v) \<noteq> null_node \<and> v_shift v = vector_size_to_shift (v_size v))"

section \<open>The scenarios of the specification\<close>

text \<open>
  Appending the values of a list one at a time, as the tests of the specification
  do (``starting empty, repeatedly push\_back values''), and what is observed of
  a result: its size and its shift.
\<close>

fun push_back_values ::
  "'a heap \<Rightarrow> 'a \<Rightarrow> vector \<Rightarrow> 'a list \<Rightarrow> error + ('a heap \<times> vector)" where
  "push_back_values h d v [] = Inr (h, v)"
| "push_back_values h d v (x # xs) =
     (case push_back h d v x of
        Inl e \<Rightarrow> Inl e
      | Inr (h1, v1) \<Rightarrow> push_back_values h1 d v1 xs)"

definition result_size :: "error + ('a heap \<times> vector) \<Rightarrow> error + nat" where
  "result_size res = map_sum id (v_size \<circ> snd) res"

definition result_shift :: "error + ('a heap \<times> vector) \<Rightarrow> error + int" where
  "result_shift res = map_sum id (v_shift \<circ> snd) res"

section \<open>Example vectors\<close>

text \<open>
  A store with two leaf nodes and an inode, and vectors in it: \<open>[10, 20, 30]\<close>,
  \<open>[10, 20, 31]\<close> and a vector of 33 values on two leaves.
\<close>

definition example_heap :: "int heap" where
  "example_heap =
     \<lparr>leaf_nodes = [array_init [10, 20, 30] 0, array_init [10, 20, 31] 0],
      inodes = [array_init [Leaf_ref 0, Leaf_ref 1] Null_ref]\<rparr>"

definition example_vector :: vector where
  "example_vector = \<lparr>v_root = Leaf_ref 0, v_size = 3, v_shift = 0\<rparr>"

definition example_vector2 :: vector where
  "example_vector2 = \<lparr>v_root = Leaf_ref 1, v_size = 3, v_shift = 0\<rparr>"

definition example_vector33 :: vector where
  "example_vector33 = \<lparr>v_root = Inode_ref 0, v_size = 33, v_shift = 5\<rparr>"

section \<open>Properties\<close>

subsection \<open>Constants and index arithmetic\<close>

lemma B_eq: "BRANCHING_FACTOR = 2 ^ 5"
  by (simp add: BRANCHING_FACTOR_def BRANCHING_FACTOR_SHIFT_def)

lemma B_pos [simp]: "0 < BRANCHING_FACTOR"
  by (simp add: B_eq)

lemma B_gt1 [simp]: "Suc 0 < BRANCHING_FACTOR"
  by (simp add: B_eq)

lemma B_pow_pos [simp]: "0 < BRANCHING_FACTOR ^ l"
  by simp

lemma mask_B: "BRANCHING_FACTOR_MASK = mask 5"
  by (simp add: BRANCHING_FACTOR_MASK_def B_eq mask_eq_exp_minus_1)

lemma and_mask_mod: "n AND BRANCHING_FACTOR_MASK = n mod BRANCHING_FACTOR"
  unfolding mask_B B_eq by (simp only: flip: take_bit_eq_mask take_bit_eq_mod)

lemma and_not_mask: "nat (int n AND NOT (int BRANCHING_FACTOR_MASK)) = n - n mod BRANCHING_FACTOR"
proof -
  have m: "int BRANCHING_FACTOR_MASK = mask 5"
    by (simp add: mask_B of_nat_mask_eq)
  have "NOT (int n) AND take_bit 5 (int n) = 0"
    by (auto simp: bit_eq_iff bit_simps)
  then have "int n - take_bit 5 (int n) = int n AND NOT (take_bit 5 (int n))"
    by (rule disjunctive_diff_eq_and_not)
  also have "\<dots> = int n AND NOT (mask 5)"
    by (auto simp: bit_eq_iff bit_simps)
  finally have "int n AND NOT (mask 5) = int n - int n mod 2 ^ 5"
    by (simp add: take_bit_eq_mod)
  then have "int n AND NOT (int BRANCHING_FACTOR_MASK) = int (n - n mod 2 ^ 5)"
    by (simp add: m of_nat_diff zmod_int)
  then show ?thesis
    by (simp add: B_eq)
qed

lemma slot_index_level:
  "slot_index index (int l * BRANCHING_FACTOR_SHIFT)
     = index div BRANCHING_FACTOR ^ l mod BRANCHING_FACTOR"
proof -
  have "nat (int l * BRANCHING_FACTOR_SHIFT) = 5 * l"
    by (simp add: BRANCHING_FACTOR_SHIFT_def nat_mult_distrib)
  moreover have "BRANCHING_FACTOR ^ l = 2 ^ (5 * l)"
    by (simp add: B_eq power_mult)
  ultimately show ?thesis
    by (simp add: slot_index_def and_mask_mod drop_bit_eq_div)
qed

lemma slot_index_0: "slot_index index 0 = index mod BRANCHING_FACTOR"
  using slot_index_level [of index 0] by simp

lemma slot_index_Suc:
  "slot_index index (int (Suc l) * BRANCHING_FACTOR_SHIFT) = child_slot l index"
  by (simp only: slot_index_level child_slot_def power_Suc div_mult2_eq)

lemma child_slot_less [simp]: "child_slot l index < BRANCHING_FACTOR"
  by (simp add: child_slot_def)

lemma shift_level_pos: "0 < int (Suc l) * BRANCHING_FACTOR_SHIFT"
  by (simp add: BRANCHING_FACTOR_SHIFT_def)

lemma shift_level_Suc:
  "int (Suc l) * BRANCHING_FACTOR_SHIFT - BRANCHING_FACTOR_SHIFT = int l * BRANCHING_FACTOR_SHIFT"
  by (simp add: algebra_simps)

lemma level_of_shift [simp]: "nat (int l * BRANCHING_FACTOR_SHIFT div BRANCHING_FACTOR_SHIFT) = l"
  by (simp add: BRANCHING_FACTOR_SHIFT_def)

lemma shift_to_max_size_level:
  "shift_to_max_size (int l * BRANCHING_FACTOR_SHIFT) = BRANCHING_FACTOR ^ Suc l"
  by (simp add: shift_to_max_size_def BRANCHING_FACTOR_SHIFT_def nat_add_distrib)

text \<open>Two numbers below \<open>B ^ Suc m\<close> agree when their top digit and the rest agree.\<close>

lemma mod_power_Suc_eq_iff:
  fixes b :: nat
  assumes "0 < b"
  shows "x mod b ^ Suc m = y mod b ^ Suc m
     \<longleftrightarrow> x div b ^ m mod b = y div b ^ m mod b \<and> x mod b ^ m = y mod b ^ m"
proof -
  have d: "z mod b ^ Suc m = b ^ m * (z div b ^ m mod b) + z mod b ^ m" for z
    unfolding power_Suc2 by (rule mod_mult2_eq)
  show ?thesis
  proof
    assume a: "x mod b ^ Suc m = y mod b ^ Suc m"
    have r: "z mod b ^ Suc m mod b ^ m = z mod b ^ m" for z
      by (simp add: mod_mod_cancel)
    have q: "z mod b ^ Suc m div b ^ m = z div b ^ m mod b" for z
      unfolding power_Suc2 using assms by (simp add: mod_mult2_eq)
    from a r [of x] r [of y] q [of x] q [of y]
    show "x div b ^ m mod b = y div b ^ m mod b \<and> x mod b ^ m = y mod b ^ m"
      by simp
  next
    assume "x div b ^ m mod b = y div b ^ m mod b \<and> x mod b ^ m = y mod b ^ m"
    then show "x mod b ^ Suc m = y mod b ^ Suc m"
      by (simp only: d)
  qed
qed

text \<open>The search of \<open>vector_size_to_shift\<close> finds the level of a size.\<close>

lemma first_fitting_level_eq:
  assumes "n \<le> BRANCHING_FACTOR ^ Suc l" and "l0 \<le> l"
    and "\<forall>k. l0 \<le> k \<and> k < l \<longrightarrow> BRANCHING_FACTOR ^ Suc k < n"
  shows "first_fitting_level n l0 = l"
  using assms
proof (induction "l - l0" arbitrary: l0)
  case 0
  then show ?case
    by (simp add: first_fitting_level.simps [of n l0] shift_to_max_size_level)
next
  case (Suc d)
  then have "l0 < l" by simp
  with Suc.prems have "\<not> n \<le> BRANCHING_FACTOR ^ Suc l0" by (simp add: not_le)
  moreover have "first_fitting_level n (l0 + 1) = l"
    using Suc by (intro Suc.hyps(1)) auto
  ultimately show ?case
    by (simp add: first_fitting_level.simps [of n l0] shift_to_max_size_level)
qed

lemma vector_size_to_shift_level:
  assumes "0 < n" and "n \<le> BRANCHING_FACTOR ^ Suc l" and "l = 0 \<or> BRANCHING_FACTOR ^ l < n"
  shows "vector_size_to_shift n = int l * BRANCHING_FACTOR_SHIFT"
proof -
  have "BRANCHING_FACTOR ^ Suc k < n" if "k < l" for k
  proof -
    from that have "Suc k \<le> l" by simp
    then have "BRANCHING_FACTOR ^ Suc k \<le> BRANCHING_FACTOR ^ l"
      by (intro power_increasing) (simp_all add: Suc_leI)
    with assms that show ?thesis by auto
  qed
  then have "first_fitting_level n 0 = l"
    using assms by (intro first_fitting_level_eq) auto
  with assms show ?thesis
    by (simp add: vector_size_to_shift_def)
qed

lemma first_fitting_level_fits: "n \<le> BRANCHING_FACTOR ^ Suc (first_fitting_level n l0)"
proof (induction n l0 rule: first_fitting_level.induct)
  case (1 n l)
  then show ?case
    by (simp add: first_fitting_level.simps [of n l] shift_to_max_size_level del: power_Suc)
qed

lemma first_fitting_level_least:
  "l0 \<le> first_fitting_level n l0
   \<and> (\<forall>k. l0 \<le> k \<and> k < first_fitting_level n l0 \<longrightarrow> BRANCHING_FACTOR ^ Suc k < n)"
proof (induction n l0 rule: first_fitting_level.induct)
  case (1 n l)
  show ?case
  proof (cases "n \<le> BRANCHING_FACTOR ^ Suc l")
    case True
    then show ?thesis
      by (simp add: first_fitting_level.simps [of n l] shift_to_max_size_level del: power_Suc)
  next
    case False
    then have e: "first_fitting_level n l = first_fitting_level n (l + 1)"
      by (simp add: first_fitting_level.simps [of n l] shift_to_max_size_level del: power_Suc)
    from False 1 have ih: "l + 1 \<le> first_fitting_level n (l + 1)
       \<and> (\<forall>k. l + 1 \<le> k \<and> k < first_fitting_level n (l + 1) \<longrightarrow> BRANCHING_FACTOR ^ Suc k < n)"
      by (simp add: shift_to_max_size_level del: power_Suc)
    show ?thesis
      unfolding e
    proof (intro conjI allI impI)
      show "l \<le> first_fitting_level n (l + 1)" using ih by simp
    next
      fix k assume k: "l \<le> k \<and> k < first_fitting_level n (l + 1)"
      show "BRANCHING_FACTOR ^ Suc k < n"
      proof (cases "k = l")
        case True
        with False show ?thesis by (simp add: not_le del: power_Suc)
      next
        case False
        with k ih show ?thesis by (simp del: power_Suc)
      qed
    qed
  qed
qed

text \<open>The level of a vector that is not empty, from its shift.\<close>

lemma vector_size_to_shift_cases:
  assumes "0 < n"
  obtains l where "vector_size_to_shift n = int l * BRANCHING_FACTOR_SHIFT"
    and "n \<le> BRANCHING_FACTOR ^ Suc l" and "l = 0 \<or> BRANCHING_FACTOR ^ l < n"
proof -
  let ?l = "first_fitting_level n 0"
  have "?l = 0 \<or> BRANCHING_FACTOR ^ ?l < n"
  proof (cases ?l)
    case 0
    then show ?thesis by simp
  next
    case (Suc k)
    with first_fitting_level_least [of 0 n] show ?thesis
      by (simp del: power_Suc)
  qed
  with assms first_fitting_level_fits [of n 0] that [of ?l] show ?thesis
    by (simp add: vector_size_to_shift_def del: power_Suc)
qed

subsection \<open>The store only grows\<close>

lemma heap_le_refl [simp]: "heap_le h h"
  by (simp add: heap_le_def)

lemma heap_le_length:
  assumes "heap_le h h'"
  shows "length (leaf_nodes h) \<le> length (leaf_nodes h')"
    and "length (inodes h) \<le> length (inodes h')"
proof -
  from assms have "length (take (length (leaf_nodes h)) (leaf_nodes h')) = length (leaf_nodes h)"
    and "length (take (length (inodes h)) (inodes h')) = length (inodes h)"
    by (simp_all add: heap_le_def)
  then show "length (leaf_nodes h) \<le> length (leaf_nodes h')"
    and "length (inodes h) \<le> length (inodes h')"
    by simp_all
qed

lemma heap_le_leaf:
  assumes "heap_le h h'" and "a < length (leaf_nodes h)"
  shows "a < length (leaf_nodes h')" and "leaf_nodes h' ! a = leaf_nodes h ! a"
proof -
  show "a < length (leaf_nodes h')"
    using assms heap_le_length(1) [OF assms(1)] by simp
  have "take (length (leaf_nodes h)) (leaf_nodes h') ! a = leaf_nodes h' ! a"
    using assms(2) by simp
  with assms(1) show "leaf_nodes h' ! a = leaf_nodes h ! a"
    by (simp add: heap_le_def)
qed

lemma heap_le_inode:
  assumes "heap_le h h'" and "a < length (inodes h)"
  shows "a < length (inodes h')" and "inodes h' ! a = inodes h ! a"
proof -
  show "a < length (inodes h')"
    using assms heap_le_length(2) [OF assms(1)] by simp
  have "take (length (inodes h)) (inodes h') ! a = inodes h' ! a"
    using assms(2) by simp
  with assms(1) show "inodes h' ! a = inodes h ! a"
    by (simp add: heap_le_def)
qed

lemma heap_le_trans:
  assumes "heap_le h1 h2" and "heap_le h2 h3"
  shows "heap_le h1 h3"
proof -
  have "take (length (leaf_nodes h1)) (leaf_nodes h3) = leaf_nodes h1"
  proof -
    have "take (length (leaf_nodes h1)) (take (length (leaf_nodes h2)) (leaf_nodes h3))
        = take (length (leaf_nodes h1)) (leaf_nodes h3)"
      using heap_le_length(1) [OF assms(1)] by (simp add: min_def)
    with assms show ?thesis by (simp add: heap_le_def)
  qed
  moreover have "take (length (inodes h1)) (inodes h3) = inodes h1"
  proof -
    have "take (length (inodes h1)) (take (length (inodes h2)) (inodes h3))
        = take (length (inodes h1)) (inodes h3)"
      using heap_le_length(2) [OF assms(1)] by (simp add: min_def)
    with assms show ?thesis by (simp add: heap_le_def)
  qed
  ultimately show ?thesis by (simp add: heap_le_def)
qed

lemma heap_le_new_leaf_node: "heap_le h (fst (new_leaf_node h vals))"
  by (simp add: heap_le_def new_leaf_node_def)

lemma heap_le_new_inode: "heap_le h (fst (new_inode h children))"
  by (simp add: heap_le_def new_inode_def)

lemma heap_le_path_ok:
  assumes "heap_le h h'" and "path_ok h l r index"
  shows "path_ok h' l r index \<and> tree_leaf h' l r index = tree_leaf h l r index"
  using assms(2)
proof (induction l arbitrary: r)
  case 0
  then show ?case
    using heap_le_leaf [OF assms(1)] by (auto split: node_ref.splits)
next
  case (Suc l)
  then show ?case
    using heap_le_inode [OF assms(1)] by (auto split: node_ref.splits)
qed

lemma heap_le_wf_tree:
  assumes "heap_le h h'" and "wf_tree h l r L"
  shows "wf_tree h' l r L"
  using assms(2)
proof (induction l arbitrary: r L)
  case 0
  then show ?case
    using heap_le_leaf [OF assms(1)] by (auto split: node_ref.splits)
next
  case (Suc l)
  from Suc.prems obtain a where r: "r = Inode_ref a" and a: "a < length (inodes h)"
    by (auto split: node_ref.splits)
  note eq = heap_le_inode [OF assms(1) a]
  from Suc.prems show ?case
    unfolding r wf_tree.simps node_ref.case eq
    using eq(1) Suc.IH by (auto split: if_splits)
qed

subsection \<open>Reading a tree\<close>

lemma path_ok_leaf:
  "path_ok h l r index \<Longrightarrow>
     tree_leaf h l r index < length (leaf_nodes h)
     \<and> length (leaf_nodes h ! tree_leaf h l r index) = BRANCHING_FACTOR"
  by (induction l arbitrary: r) (auto split: node_ref.splits)

lemma find_leaf_loop_path:
  "path_ok h l r index \<Longrightarrow>
     find_leaf_loop h r (int l * BRANCHING_FACTOR_SHIFT) index
       = Inr (Leaf_ref (tree_leaf h l r index), 0)"
proof (induction l arbitrary: r)
  case 0
  then show ?case
    by (auto simp: find_leaf_loop.simps [of h r 0] split: node_ref.splits)
next
  case (Suc l)
  then obtain a where r: "r = Inode_ref a" and a: "a < length (inodes h)"
    and len: "length (inodes h ! a) = BRANCHING_FACTOR"
    and p: "path_ok h l (inodes h ! a ! child_slot l index) index"
    by (auto split: node_ref.splits)
  show ?case
    unfolding r
    by (subst find_leaf_loop.simps)
      (simp add: shift_level_pos shift_level_Suc get_inode_def get_child_def a len
        slot_index_Suc Suc.IH [OF p] del: of_nat_Suc)
qed

lemma wf_tree_path_ok:
  assumes "wf_tree h l r L" and "index div BRANCHING_FACTOR mod BRANCHING_FACTOR ^ l < L"
  shows "path_ok h l r index"
  using assms
proof (induction l arbitrary: r L)
  case 0
  then show ?case by (auto split: node_ref.splits)
next
  case (Suc l)
  let ?B = BRANCHING_FACTOR
  let ?k = "index div ?B mod ?B ^ Suc l"
  from Suc.prems obtain a where r: "r = Inode_ref a" and a: "a < length (inodes h)"
    and len: "length (inodes h ! a) = ?B"
    and ch: "\<And>j. j < ?B \<Longrightarrow>
              (if j < L div ?B ^ l then wf_tree h l (inodes h ! a ! j) (?B ^ l)
               else if j = L div ?B ^ l \<and> L mod ?B ^ l \<noteq> 0
               then wf_tree h l (inodes h ! a ! j) (L mod ?B ^ l)
               else inodes h ! a ! j = Null_ref)"
    by (auto split: node_ref.splits)
  have slot: "child_slot l index = ?k div ?B ^ l"
    unfolding child_slot_def power_Suc2 by (simp add: mod_mult2_eq)
  have rest: "index div ?B mod ?B ^ l = ?k mod ?B ^ l"
    by (simp add: mod_mod_cancel)
  from Suc.prems(2) have kL: "?k < L" .
  then have le: "?k div ?B ^ l \<le> L div ?B ^ l"
    by (simp add: div_le_mono)
  have "path_ok h l (inodes h ! a ! child_slot l index) index"
  proof (cases "child_slot l index < L div ?B ^ l")
    case True
    with ch [of "child_slot l index"]
    have "wf_tree h l (inodes h ! a ! child_slot l index) (?B ^ l)" by simp
    then show ?thesis
      by (rule Suc.IH) simp
  next
    case False
    with le slot have e: "child_slot l index = L div ?B ^ l" by simp
    have lt: "?k mod ?B ^ l < L mod ?B ^ l"
    proof -
      have "?k = ?B ^ l * (?k div ?B ^ l) + ?k mod ?B ^ l" by simp
      moreover have "L = ?B ^ l * (L div ?B ^ l) + L mod ?B ^ l" by simp
      ultimately show ?thesis
        using kL e slot by (metis nat_add_left_cancel_less)
    qed
    then have "L mod ?B ^ l \<noteq> 0" by simp
    with ch [of "child_slot l index"] e child_slot_less [of l index]
    have "wf_tree h l (inodes h ! a ! child_slot l index) (L mod ?B ^ l)" by simp
    then show ?thesis
      using lt rest by (intro Suc.IH) simp_all
  qed
  with a len show ?case by (simp add: r)
qed

subsection \<open>Copying an inode with one child replaced\<close>

lemma SHIFT_pos [simp]: "0 < BRANCHING_FACTOR_SHIFT"
  by (simp add: BRANCHING_FACTOR_SHIFT_def)

lemma SHIFT_neq_0 [simp]: "BRANCHING_FACTOR_SHIFT \<noteq> 0"
  by (simp add: BRANCHING_FACTOR_SHIFT_def)

lemma shift_level_nonneg [simp]: "\<not> int l * BRANCHING_FACTOR_SHIFT < 0"
  by (simp add: BRANCHING_FACTOR_SHIFT_def)

lemma shift_level_eq_0 [simp]: "int (Suc l) * BRANCHING_FACTOR_SHIFT \<noteq> 0"
  by (simp add: BRANCHING_FACTOR_SHIFT_def)

lemma new_inode_simps [simp]:
  "leaf_nodes (fst (new_inode h cs)) = leaf_nodes h"
  "inodes (fst (new_inode h cs)) = inodes h @ [cs]"
  "snd (new_inode h cs) = Inode_ref (length (inodes h))"
  by (simp_all add: new_inode_def)

lemma new_leaf_node_simps [simp]:
  "leaf_nodes (fst (new_leaf_node h vals)) = leaf_nodes h @ [vals]"
  "inodes (fst (new_leaf_node h vals)) = inodes h"
  "snd (new_leaf_node h vals) = Leaf_ref (length (leaf_nodes h))"
  by (simp_all add: new_leaf_node_def)

lemma path_ok_new_inode:
  assumes "length cs = BRANCHING_FACTOR"
  shows "path_ok (fst (new_inode h1 cs)) (Suc l) (snd (new_inode h1 cs)) j
           \<longleftrightarrow> path_ok (fst (new_inode h1 cs)) l (cs ! child_slot l j) j"
    and "tree_leaf (fst (new_inode h1 cs)) (Suc l) (snd (new_inode h1 cs)) j
           = tree_leaf (fst (new_inode h1 cs)) l (cs ! child_slot l j) j"
  using assms by simp_all

lemma wf_tree_new_inode:
  assumes "length cs = BRANCHING_FACTOR" and "0 < L" and "L \<le> BRANCHING_FACTOR ^ Suc l"
    and "\<And>j. j < BRANCHING_FACTOR \<Longrightarrow>
           (if j < L div BRANCHING_FACTOR ^ l
            then wf_tree (fst (new_inode h1 cs)) l (cs ! j) (BRANCHING_FACTOR ^ l)
            else if j = L div BRANCHING_FACTOR ^ l \<and> L mod BRANCHING_FACTOR ^ l \<noteq> 0
            then wf_tree (fst (new_inode h1 cs)) l (cs ! j) (L mod BRANCHING_FACTOR ^ l)
            else cs ! j = Null_ref)"
  shows "wf_tree (fst (new_inode h1 cs)) (Suc l) (snd (new_inode h1 cs)) L"
  using assms by (simp del: power_Suc)

text \<open>
  A well-formed inode, copied with the child at slot \<open>s\<close> replaced by a tree of the
  same shape, is well formed.
\<close>

lemma wf_tree_replace_child:
  assumes wf: "wf_tree h (Suc l) (Inode_ref a) L" and le: "heap_le h h1"
    and c2: "\<And>L'. wf_tree h l (inodes h ! a ! s) L' \<Longrightarrow> wf_tree h1 l c2 L'"
    and nn: "inodes h ! a ! s \<noteq> Null_ref" "c2 \<noteq> Null_ref"
  shows "wf_tree (fst (new_inode h1 ((inodes h ! a)[s := c2]))) (Suc l)
           (snd (new_inode h1 ((inodes h ! a)[s := c2]))) L"
proof (rule wf_tree_new_inode)
  let ?B = BRANCHING_FACTOR
  let ?cs = "(inodes h ! a)[s := c2]"
  let ?h' = "fst (new_inode h1 ?cs)"
  from wf have a: "a < length (inodes h)" and len: "length (inodes h ! a) = ?B"
    and L: "0 < L" "L \<le> ?B ^ Suc l"
    and ch: "\<And>j. j < ?B \<Longrightarrow>
              (if j < L div ?B ^ l then wf_tree h l (inodes h ! a ! j) (?B ^ l)
               else if j = L div ?B ^ l \<and> L mod ?B ^ l \<noteq> 0
               then wf_tree h l (inodes h ! a ! j) (L mod ?B ^ l)
               else inodes h ! a ! j = Null_ref)"
    by (auto simp del: power_Suc)
  show "length ?cs = ?B" using len by simp
  show "0 < L" "L \<le> ?B ^ Suc l" by fact+
  have le': "heap_le h ?h'"
    using le heap_le_new_inode by (rule heap_le_trans)
  have le1: "heap_le h1 ?h'"
    by (rule heap_le_new_inode)
  fix j assume j: "j < ?B"
  show "if j < L div ?B ^ l then wf_tree ?h' l (?cs ! j) (?B ^ l)
        else if j = L div ?B ^ l \<and> L mod ?B ^ l \<noteq> 0
        then wf_tree ?h' l (?cs ! j) (L mod ?B ^ l)
        else ?cs ! j = Null_ref"
  proof (cases "j = s")
    case True
    then have e: "?cs ! j = c2" using j len by simp
    have c2': "wf_tree ?h' l c2 L'" if "wf_tree h l (inodes h ! a ! s) L'" for L'
      using le1 c2 [OF that] by (rule heap_le_wf_tree)
    from ch [OF j] nn True c2' show ?thesis
      unfolding e by (auto split: if_splits)
  next
    case False
    then have e: "?cs ! j = inodes h ! a ! j" by simp
    from ch [OF j] show ?thesis
      unfolding e by (auto intro: heap_le_wf_tree [OF le'] split: if_splits)
  qed
qed

subsection \<open>replace\_value\<close>

lemma get_type_simps [simp]:
  "get_type r = null_node \<longleftrightarrow> r = Null_ref"
  "get_type r = inode \<longleftrightarrow> (\<exists>a. r = Inode_ref a)"
  "get_type r = leaf_node \<longleftrightarrow> (\<exists>a. r = Leaf_ref a)"
  by (cases r; simp)+

lemma path_ok_not_null: "path_ok h l r index \<Longrightarrow> r \<noteq> Null_ref"
  by (cases l) auto

lemma replace_value_tree:
  assumes "path_ok h l r index"
  shows "\<exists>h' r'. replace_value h r (int l * BRANCHING_FACTOR_SHIFT) index v = Inr (h', r')
     \<and> heap_le h h'
     \<and> leaf_nodes h' = leaf_nodes h
          @ [(leaf_nodes h ! tree_leaf h l r index)[index mod BRANCHING_FACTOR := v]]
     \<and> (\<forall>j. path_ok h l r j \<longrightarrow> path_ok h' l r' j
            \<and> tree_leaf h' l r' j =
                (if j div BRANCHING_FACTOR mod BRANCHING_FACTOR ^ l
                      = index div BRANCHING_FACTOR mod BRANCHING_FACTOR ^ l
                 then length (leaf_nodes h) else tree_leaf h l r j))
     \<and> (\<forall>L. wf_tree h l r L \<longrightarrow> wf_tree h' l r' L)
     \<and> r' \<noteq> r \<and> r' \<noteq> Null_ref"
  using assms
proof (induction l arbitrary: r)
  case 0
  then obtain a where r: "r = Leaf_ref a" and a: "a < length (leaf_nodes h)"
    and len: "length (leaf_nodes h ! a) = BRANCHING_FACTOR"
    by (auto split: node_ref.splits)
  have "replace_value h r 0 index v
      = Inr (new_leaf_node h ((leaf_nodes h ! a)[index mod BRANCHING_FACTOR := v]))"
    by (subst replace_value.simps)
      (simp add: r LEAF_NODE_SHIFT_def get_leaf_node_def a len slot_index_0)
  then show ?case
    using a len by (auto simp: new_leaf_node_def r heap_le_def split: node_ref.splits)
next
  case (Suc l)
  let ?B = BRANCHING_FACTOR
  let ?s = "child_slot l index"
  from Suc.prems obtain a where r: "r = Inode_ref a" and a: "a < length (inodes h)"
    and len: "length (inodes h ! a) = ?B"
    and p: "path_ok h l (inodes h ! a ! ?s) index"
    by (auto split: node_ref.splits)
  let ?c = "inodes h ! a ! ?s"
  from Suc.IH [OF p] obtain h1 c2 where
    rv: "replace_value h ?c (int l * BRANCHING_FACTOR_SHIFT) index v = Inr (h1, c2)"
    and le: "heap_le h h1"
    and lf: "leaf_nodes h1 = leaf_nodes h
          @ [(leaf_nodes h ! tree_leaf h l ?c index)[index mod ?B := v]]"
    and paths: "\<And>j. path_ok h l ?c j \<Longrightarrow> path_ok h1 l c2 j
            \<and> tree_leaf h1 l c2 j =
                (if j div ?B mod ?B ^ l = index div ?B mod ?B ^ l
                 then length (leaf_nodes h) else tree_leaf h l ?c j)"
    and wfs: "\<And>L. wf_tree h l ?c L \<Longrightarrow> wf_tree h1 l c2 L"
    and nn: "c2 \<noteq> Null_ref"
    by blast
  let ?cs = "(inodes h ! a)[?s := c2]"
  let ?h' = "fst (new_inode h1 ?cs)"
  let ?r' = "snd (new_inode h1 ?cs)"
  note a1 = heap_le_inode [OF le a]
  have res: "replace_value h r (int (Suc l) * BRANCHING_FACTOR_SHIFT) index v = Inr (?h', ?r')"
    unfolding r
    by (subst replace_value.simps)
      (simp add: shift_level_pos shift_level_Suc get_inode_def get_child_def a len a1
        slot_index_Suc rv LEAF_NODE_SHIFT_def make_inode_from_array_def prod_eq_iff
        del: of_nat_Suc)
  have le1: "heap_le h1 ?h'" by (rule heap_le_new_inode)
  have le': "heap_le h ?h'" using le le1 by (rule heap_le_trans)
  have lencs: "length ?cs = ?B" using len by simp
  have paths': "\<forall>j. path_ok h (Suc l) r j \<longrightarrow> path_ok ?h' (Suc l) ?r' j
         \<and> tree_leaf ?h' (Suc l) ?r' j =
             (if j div ?B mod ?B ^ Suc l = index div ?B mod ?B ^ Suc l
              then length (leaf_nodes h) else tree_leaf h (Suc l) r j)"
  proof (intro allI impI)
    fix j assume pj: "path_ok h (Suc l) r j"
    then have pc: "path_ok h l (inodes h ! a ! child_slot l j) j"
      by (simp add: r)
    have iff: "j div ?B mod ?B ^ Suc l = index div ?B mod ?B ^ Suc l
       \<longleftrightarrow> child_slot l j = ?s \<and> j div ?B mod ?B ^ l = index div ?B mod ?B ^ l"
      unfolding child_slot_def by (rule mod_power_Suc_eq_iff) simp
    show "path_ok ?h' (Suc l) ?r' j
         \<and> tree_leaf ?h' (Suc l) ?r' j =
             (if j div ?B mod ?B ^ Suc l = index div ?B mod ?B ^ Suc l
              then length (leaf_nodes h) else tree_leaf h (Suc l) r j)"
    proof (cases "child_slot l j = ?s")
      case True
      then have e: "?cs ! child_slot l j = c2" using len by simp
      from pc True paths [of j] heap_le_path_ok [OF le1, of l c2 j]
      show ?thesis
        unfolding path_ok_new_inode [OF lencs] e iff
        by (simp add: r True)
    next
      case False
      then have e: "?cs ! child_slot l j = inodes h ! a ! child_slot l j" by simp
      from pc False heap_le_path_ok [OF le', of l "inodes h ! a ! child_slot l j" j]
      show ?thesis
        unfolding path_ok_new_inode [OF lencs] e iff
        by (simp add: r)
    qed
  qed
  have wfs': "\<forall>L. wf_tree h (Suc l) r L \<longrightarrow> wf_tree ?h' (Suc l) ?r' L"
  proof (intro allI impI)
    fix L assume "wf_tree h (Suc l) r L"
    then show "wf_tree ?h' (Suc l) ?r' L"
      unfolding r using le wfs path_ok_not_null [OF p] nn
      by (rule wf_tree_replace_child)
  qed
  have neq: "?r' \<noteq> r" "?r' \<noteq> Null_ref"
    using heap_le_length(2) [OF le] a by (simp_all add: r)
  have lf': "leaf_nodes ?h' = leaf_nodes h
          @ [(leaf_nodes h ! tree_leaf h (Suc l) r index)[index mod ?B := v]]"
    using lf by (simp add: r)
  from res le' lf' paths' wfs' neq show ?case
    by blast
qed

subsection \<open>replace\_leaf\_node\<close>

lemma replace_leaf_node_tree:
  assumes "path_ok h l r index"
    and b: "b < length (leaf_nodes h)" "length (leaf_nodes h ! b) = BRANCHING_FACTOR"
  shows "\<exists>h' r'. replace_leaf_node h r (int l * BRANCHING_FACTOR_SHIFT) index (Leaf_ref b)
                   = Inr (h', r')
     \<and> heap_le h h'
     \<and> leaf_nodes h' = leaf_nodes h
     \<and> (\<forall>j. path_ok h l r j \<longrightarrow> path_ok h' l r' j
            \<and> tree_leaf h' l r' j =
                (if j div BRANCHING_FACTOR mod BRANCHING_FACTOR ^ l
                      = index div BRANCHING_FACTOR mod BRANCHING_FACTOR ^ l
                 then b else tree_leaf h l r j))
     \<and> (\<forall>L. wf_tree h l r L \<longrightarrow> wf_tree h' l r' L)
     \<and> r' \<noteq> Null_ref"
  using assms(1)
proof (induction l arbitrary: r)
  case 0
  then obtain a where r: "r = Leaf_ref a"
    by (auto split: node_ref.splits)
  have "replace_leaf_node h r 0 index (Leaf_ref b) = Inr (h, Leaf_ref b)"
    by (subst replace_leaf_node.simps) (simp add: r LEAF_NODE_SHIFT_def)
  then show ?case
    using b by (auto simp: r)
next
  case (Suc l)
  let ?B = BRANCHING_FACTOR
  let ?s = "child_slot l index"
  from Suc.prems obtain a where r: "r = Inode_ref a" and a: "a < length (inodes h)"
    and len: "length (inodes h ! a) = ?B"
    and p: "path_ok h l (inodes h ! a ! ?s) index"
    by (auto split: node_ref.splits)
  let ?c = "inodes h ! a ! ?s"
  from Suc.IH [OF p] obtain h1 c2 where
    rv: "replace_leaf_node h ?c (int l * BRANCHING_FACTOR_SHIFT) index (Leaf_ref b) = Inr (h1, c2)"
    and le: "heap_le h h1"
    and lf: "leaf_nodes h1 = leaf_nodes h"
    and paths: "\<And>j. path_ok h l ?c j \<Longrightarrow> path_ok h1 l c2 j
            \<and> tree_leaf h1 l c2 j =
                (if j div ?B mod ?B ^ l = index div ?B mod ?B ^ l
                 then b else tree_leaf h l ?c j)"
    and wfs: "\<And>L. wf_tree h l ?c L \<Longrightarrow> wf_tree h1 l c2 L"
    and nn: "c2 \<noteq> Null_ref"
    by blast
  let ?cs = "(inodes h ! a)[?s := c2]"
  let ?h' = "fst (new_inode h1 ?cs)"
  let ?r' = "snd (new_inode h1 ?cs)"
  note a1 = heap_le_inode [OF le a]
  have res: "replace_leaf_node h r (int (Suc l) * BRANCHING_FACTOR_SHIFT) index (Leaf_ref b)
      = Inr (?h', ?r')"
    unfolding r
    by (subst replace_leaf_node.simps)
      (simp add: shift_level_pos shift_level_Suc get_inode_def get_child_def a len a1
        slot_index_Suc rv LEAF_NODE_SHIFT_def make_inode_from_array_def prod_eq_iff
        del: of_nat_Suc)
  have le1: "heap_le h1 ?h'" by (rule heap_le_new_inode)
  have le': "heap_le h ?h'" using le le1 by (rule heap_le_trans)
  have lencs: "length ?cs = ?B" using len by simp
  have paths': "\<forall>j. path_ok h (Suc l) r j \<longrightarrow> path_ok ?h' (Suc l) ?r' j
         \<and> tree_leaf ?h' (Suc l) ?r' j =
             (if j div ?B mod ?B ^ Suc l = index div ?B mod ?B ^ Suc l
              then b else tree_leaf h (Suc l) r j)"
  proof (intro allI impI)
    fix j assume pj: "path_ok h (Suc l) r j"
    then have pc: "path_ok h l (inodes h ! a ! child_slot l j) j"
      by (simp add: r)
    have iff: "j div ?B mod ?B ^ Suc l = index div ?B mod ?B ^ Suc l
       \<longleftrightarrow> child_slot l j = ?s \<and> j div ?B mod ?B ^ l = index div ?B mod ?B ^ l"
      unfolding child_slot_def by (rule mod_power_Suc_eq_iff) simp
    show "path_ok ?h' (Suc l) ?r' j
         \<and> tree_leaf ?h' (Suc l) ?r' j =
             (if j div ?B mod ?B ^ Suc l = index div ?B mod ?B ^ Suc l
              then b else tree_leaf h (Suc l) r j)"
    proof (cases "child_slot l j = ?s")
      case True
      then have e: "?cs ! child_slot l j = c2" using len by simp
      from pc True paths [of j] heap_le_path_ok [OF le1, of l c2 j]
      show ?thesis
        unfolding path_ok_new_inode [OF lencs] e iff
        by (simp add: r True)
    next
      case False
      then have e: "?cs ! child_slot l j = inodes h ! a ! child_slot l j" by simp
      from pc False heap_le_path_ok [OF le', of l "inodes h ! a ! child_slot l j" j]
      show ?thesis
        unfolding path_ok_new_inode [OF lencs] e iff
        by (simp add: r)
    qed
  qed
  have wfs': "\<forall>L. wf_tree h (Suc l) r L \<longrightarrow> wf_tree ?h' (Suc l) ?r' L"
  proof (intro allI impI)
    fix L assume "wf_tree h (Suc l) r L"
    then show "wf_tree ?h' (Suc l) ?r' L"
      unfolding r using le wfs path_ok_not_null [OF p] nn
      by (rule wf_tree_replace_child)
  qed
  have neq: "?r' \<noteq> Null_ref" by simp
  have lf': "leaf_nodes ?h' = leaf_nodes h"
    using lf by simp
  from res le' lf' paths' wfs' neq show ?case
    by blast
qed

subsection \<open>make\_new\_path\<close>

lemma B_pow_gt1: "0 < l \<Longrightarrow> 1 < BRANCHING_FACTOR ^ l"
  using B_gt1 by (intro one_less_power) simp_all

lemma length_array_init [simp]:
  "length xs \<le> BRANCHING_FACTOR \<Longrightarrow> length (array_init xs pad) = BRANCHING_FACTOR"
  by (simp add: array_init_def)

lemma nth_array_init:
  "i < BRANCHING_FACTOR \<Longrightarrow>
     array_init xs pad ! i = (if i < length xs then xs ! i else pad)"
  by (simp add: array_init_def nth_append)

lemma make_new_path_tree:
  assumes b: "b < length (leaf_nodes h)" "length (leaf_nodes h ! b) = BRANCHING_FACTOR"
  shows "\<exists>h' r'. make_new_path h (int l * BRANCHING_FACTOR_SHIFT) (Leaf_ref b) = Inr (h', r')
     \<and> heap_le h h'
     \<and> leaf_nodes h' = leaf_nodes h
     \<and> wf_tree h' l r' 1
     \<and> (\<forall>j. j div BRANCHING_FACTOR mod BRANCHING_FACTOR ^ l = 0 \<longrightarrow> tree_leaf h' l r' j = b)
     \<and> r' \<noteq> Null_ref"
proof (induction l)
  case 0
  have "make_new_path h 0 (Leaf_ref b) = Inr (h, Leaf_ref b)"
    by (subst make_new_path.simps) (simp add: LEAF_NODE_SHIFT_def)
  then show ?case
    using b by auto
next
  case (Suc l)
  let ?B = BRANCHING_FACTOR
  from Suc.IH obtain h1 c where
    mk: "make_new_path h (int l * BRANCHING_FACTOR_SHIFT) (Leaf_ref b) = Inr (h1, c)"
    and le: "heap_le h h1"
    and lf: "leaf_nodes h1 = leaf_nodes h"
    and wf: "wf_tree h1 l c 1"
    and leafs: "\<And>j. j div ?B mod ?B ^ l = 0 \<Longrightarrow> tree_leaf h1 l c j = b"
    and nn: "c \<noteq> Null_ref"
    by blast
  let ?cs = "array_init [c] Null_ref"
  let ?h' = "fst (new_inode h1 ?cs)"
  let ?r' = "snd (new_inode h1 ?cs)"
  have res: "make_new_path h (int (Suc l) * BRANCHING_FACTOR_SHIFT) (Leaf_ref b) = Inr (?h', ?r')"
    by (subst make_new_path.simps)
      (simp add: shift_level_Suc mk LEAF_NODE_SHIFT_def make_inode_from_array_def prod_eq_iff
        del: of_nat_Suc)
  have le1: "heap_le h1 ?h'" by (rule heap_le_new_inode)
  have le': "heap_le h ?h'" using le le1 by (rule heap_le_trans)
  have lencs: "length ?cs = ?B" by (simp add: Suc_leI)
  have wf1: "wf_tree ?h' l c 1" using le1 wf by (rule heap_le_wf_tree)
  have wf': "wf_tree ?h' (Suc l) ?r' 1"
  proof (rule wf_tree_new_inode [OF lencs])
    show "0 < (1::nat)" by simp
    show "1 \<le> ?B ^ Suc l" by (simp add: Suc_leI)
    fix j assume j: "j < ?B"
    show "if j < 1 div ?B ^ l then wf_tree ?h' l (?cs ! j) (?B ^ l)
          else if j = 1 div ?B ^ l \<and> 1 mod ?B ^ l \<noteq> 0
          then wf_tree ?h' l (?cs ! j) (1 mod ?B ^ l)
          else ?cs ! j = Null_ref"
    proof (cases l)
      case 0
      with j wf1 show ?thesis by (simp add: nth_array_init)
    next
      case (Suc l')
      then have "1 < ?B ^ l" by (intro B_pow_gt1) simp
      then have d: "1 div ?B ^ l = 0" "1 mod ?B ^ l = 1"
        by (rule div_less, rule mod_less)
      from j wf1 show ?thesis unfolding d by (simp add: nth_array_init)
    qed
  qed
  have leafs': "\<forall>j. j div ?B mod ?B ^ Suc l = 0 \<longrightarrow> tree_leaf ?h' (Suc l) ?r' j = b"
  proof (intro allI impI)
    fix j assume "j div ?B mod ?B ^ Suc l = 0"
    then have "j div ?B mod ?B ^ Suc l = 0 div ?B mod ?B ^ Suc l" by simp
    then have z: "child_slot l j = 0" "j div ?B mod ?B ^ l = 0"
      unfolding child_slot_def by (simp_all only: mod_power_Suc_eq_iff [OF B_pos]) simp_all
    have "tree_leaf h1 l c j = b" using z(2) by (rule leafs)
    moreover have "path_ok h1 l c j"
      using wf by (rule wf_tree_path_ok) (simp add: z)
    ultimately show "tree_leaf ?h' (Suc l) ?r' j = b"
      using heap_le_path_ok [OF le1, of l c j]
      unfolding path_ok_new_inode [OF lencs] by (simp add: z nth_array_init)
  qed
  have neq: "?r' \<noteq> Null_ref" by simp
  have lf': "leaf_nodes ?h' = leaf_nodes h" using lf by simp
  from res le' lf' wf' leafs' neq show ?case
    by blast
qed

subsection \<open>append\_leaf\_node\<close>

lemma SHIFT_not_neg [simp]: "\<not> BRANCHING_FACTOR_SHIFT < 0"
  by (simp add: BRANCHING_FACTOR_SHIFT_def)

text \<open>
  A well-formed inode that is not full, copied with the child at the slot of its
  next leaf replaced by a tree that holds one leaf more, is well formed.
\<close>

lemma wf_tree_append_child:
  assumes wf: "wf_tree h (Suc l) (Inode_ref a) L" and le: "heap_le h h1"
    and L: "L < BRANCHING_FACTOR ^ Suc l"
    and c2: "wf_tree h1 l c2 (Suc (L mod BRANCHING_FACTOR ^ l))"
  shows "wf_tree (fst (new_inode h1 ((inodes h ! a)[L div BRANCHING_FACTOR ^ l := c2]))) (Suc l)
           (snd (new_inode h1 ((inodes h ! a)[L div BRANCHING_FACTOR ^ l := c2]))) (Suc L)"
proof (rule wf_tree_new_inode)
  let ?B = BRANCHING_FACTOR
  let ?cap = "?B ^ l"
  let ?q = "L div ?cap"
  let ?m = "L mod ?cap"
  let ?cs = "(inodes h ! a)[?q := c2]"
  let ?h' = "fst (new_inode h1 ?cs)"
  from wf have a: "a < length (inodes h)" and len: "length (inodes h ! a) = ?B"
    and ch: "\<And>j. j < ?B \<Longrightarrow>
              (if j < ?q then wf_tree h l (inodes h ! a ! j) ?cap
               else if j = ?q \<and> ?m \<noteq> 0
               then wf_tree h l (inodes h ! a ! j) ?m
               else inodes h ! a ! j = Null_ref)"
    by (auto simp del: power_Suc)
  show "length ?cs = ?B" using len by simp
  show "0 < Suc L" by simp
  show "Suc L \<le> ?B ^ Suc l" using L by simp
  have le': "heap_le h ?h'"
    using le heap_le_new_inode by (rule heap_le_trans)
  have le1: "heap_le h1 ?h'"
    by (rule heap_le_new_inode)
  have c2': "wf_tree ?h' l c2 (Suc ?m)"
    using le1 c2 by (rule heap_le_wf_tree)
  have q: "?q < ?B"
    using L by (simp add: less_mult_imp_div_less mult.commute)
  have m: "Suc ?m \<le> ?cap"
    by (simp add: Suc_leI)
  have dm: "(Suc L div ?cap = ?q \<and> Suc L mod ?cap = Suc ?m \<and> Suc ?m < ?cap)
          \<or> (Suc L div ?cap = Suc ?q \<and> Suc L mod ?cap = 0 \<and> Suc ?m = ?cap)"
  proof (cases "Suc ?m = ?cap")
    case True
    then show ?thesis by (simp add: mod_Suc div_Suc)
  next
    case False
    with m have "Suc ?m < ?cap" by simp
    with False show ?thesis by (simp add: mod_Suc div_Suc)
  qed
  fix j assume j: "j < ?B"
  show "if j < Suc L div ?cap then wf_tree ?h' l (?cs ! j) ?cap
        else if j = Suc L div ?cap \<and> Suc L mod ?cap \<noteq> 0
        then wf_tree ?h' l (?cs ! j) (Suc L mod ?cap)
        else ?cs ! j = Null_ref"
  proof (cases "j = ?q")
    case True
    then have e: "?cs ! j = c2" using j len by simp
    from dm show ?thesis
    proof
      assume "Suc L div ?cap = ?q \<and> Suc L mod ?cap = Suc ?m \<and> Suc ?m < ?cap"
      then have d: "Suc L div ?cap = ?q" "Suc L mod ?cap = Suc ?m" by blast+
      from c2' True show ?thesis unfolding e d by simp
    next
      assume "Suc L div ?cap = Suc ?q \<and> Suc L mod ?cap = 0 \<and> Suc ?m = ?cap"
      then have d: "Suc L div ?cap = Suc ?q" "Suc L mod ?cap = 0" and f: "Suc ?m = ?cap"
        by blast+
      from c2' True show ?thesis unfolding e d f by simp
    qed
  next
    case False
    then have e: "?cs ! j = inodes h ! a ! j" by simp
    have old: "wf_tree ?h' l (inodes h ! a ! j) ?cap" if "j < ?q"
      using le' ch [OF j] that by (auto intro: heap_le_wf_tree)
    have null: "inodes h ! a ! j = Null_ref" if "?q < j"
      using ch [OF j] that by simp
    from dm show ?thesis
    proof
      assume "Suc L div ?cap = ?q \<and> Suc L mod ?cap = Suc ?m \<and> Suc ?m < ?cap"
      then have d: "Suc L div ?cap = ?q" "Suc L mod ?cap = Suc ?m" by blast+
      from False old null show ?thesis unfolding e d
        by (cases "j < ?q") simp_all
    next
      assume "Suc L div ?cap = Suc ?q \<and> Suc L mod ?cap = 0 \<and> Suc ?m = ?cap"
      then have d: "Suc L div ?cap = Suc ?q" "Suc L mod ?cap = 0" by blast+
      from False old null show ?thesis unfolding e d
        by (cases "j < ?q") simp_all
    qed
  qed
qed

lemma wf_tree_SucD:
  assumes "wf_tree h (Suc l) r L"
  shows "\<exists>a. r = Inode_ref a \<and> a < length (inodes h)
    \<and> length (inodes h ! a) = BRANCHING_FACTOR
    \<and> 0 < L \<and> L \<le> BRANCHING_FACTOR ^ Suc l
    \<and> (\<forall>j<BRANCHING_FACTOR.
              (if j < L div BRANCHING_FACTOR ^ l
               then wf_tree h l (inodes h ! a ! j) (BRANCHING_FACTOR ^ l)
               else if j = L div BRANCHING_FACTOR ^ l \<and> L mod BRANCHING_FACTOR ^ l \<noteq> 0
               then wf_tree h l (inodes h ! a ! j) (L mod BRANCHING_FACTOR ^ l)
               else inodes h ! a ! j = Null_ref))"
  using assms by (auto simp del: power_Suc split: node_ref.splits)

lemma wf_tree_not_null: "wf_tree h l r L \<Longrightarrow> r \<noteq> Null_ref"
  by (cases l) auto

lemma array_get_simp [simp]: "i < length xs \<Longrightarrow> array_get xs i = Inr (xs ! i)"
  by (simp add: array_get_def)

lemma append_leaf_node_tree:
  assumes "wf_tree h (Suc l) r L" and "L < BRANCHING_FACTOR ^ Suc l"
    and "index div BRANCHING_FACTOR mod BRANCHING_FACTOR ^ Suc l = L"
    and b: "b < length (leaf_nodes h)" "length (leaf_nodes h ! b) = BRANCHING_FACTOR"
  shows "\<exists>h' r'. append_leaf_node h r (int (Suc l) * BRANCHING_FACTOR_SHIFT) index (Leaf_ref b)
                   = Inr (h', r')
     \<and> heap_le h h'
     \<and> leaf_nodes h' = leaf_nodes h
     \<and> wf_tree h' (Suc l) r' (Suc L)
     \<and> (\<forall>j. j div BRANCHING_FACTOR mod BRANCHING_FACTOR ^ Suc l < L
            \<longrightarrow> tree_leaf h' (Suc l) r' j = tree_leaf h (Suc l) r j)
     \<and> (\<forall>j. j div BRANCHING_FACTOR mod BRANCHING_FACTOR ^ Suc l = L
            \<longrightarrow> tree_leaf h' (Suc l) r' j = b)
     \<and> r' \<noteq> Null_ref"
  using assms(1-3)
proof (induction l arbitrary: r L)
  case 0
  let ?B = BRANCHING_FACTOR
  from "0.prems"(1) obtain a where r: "r = Inode_ref a" and a: "a < length (inodes h)"
    and len: "length (inodes h ! a) = ?B"
    by (auto split: node_ref.splits)
  have s: "child_slot 0 j = j div ?B mod ?B ^ Suc 0" for j
    by (simp add: child_slot_def)
  let ?cs = "(inodes h ! a)[L := Leaf_ref b]"
  let ?h' = "fst (new_inode h ?cs)"
  let ?r' = "snd (new_inode h ?cs)"
  have res: "append_leaf_node h r (int (Suc 0) * BRANCHING_FACTOR_SHIFT) index (Leaf_ref b)
      = Inr (?h', ?r')"
    unfolding r
    by (subst append_leaf_node.simps)
      (simp add: get_inode_def a LOWEST_LEVEL_INODE_SHIFT_def make_inode_from_array_def
        prod_eq_iff slot_index_Suc [of index 0, simplified] s "0.prems"(3) [simplified])
  have le': "heap_le h ?h'" by (rule heap_le_new_inode)
  have lencs: "length ?cs = ?B" using len by simp
  have "wf_tree h 0 (Leaf_ref b) (Suc (L mod ?B ^ 0))"
    using b by simp
  with "0.prems"(1) [unfolded r] heap_le_refl "0.prems"(2)
  have "wf_tree (fst (new_inode h ((inodes h ! a)[L div ?B ^ 0 := Leaf_ref b]))) (Suc 0)
           (snd (new_inode h ((inodes h ! a)[L div ?B ^ 0 := Leaf_ref b]))) (Suc L)"
    by (rule wf_tree_append_child)
  then have wf': "wf_tree ?h' (Suc 0) ?r' (Suc L)" by (simp only: power_0 div_by_1)
  have old: "\<forall>j. j div ?B mod ?B ^ Suc 0 < L
            \<longrightarrow> tree_leaf ?h' (Suc 0) ?r' j = tree_leaf h (Suc 0) r j"
    unfolding path_ok_new_inode [OF lencs] by (simp add: r s)
  have new: "\<forall>j. j div ?B mod ?B ^ Suc 0 = L \<longrightarrow> tree_leaf ?h' (Suc 0) ?r' j = b"
    unfolding path_ok_new_inode [OF lencs] using "0.prems"(2) len by (simp add: s)
  have neq: "?r' \<noteq> Null_ref" by simp
  have lf': "leaf_nodes ?h' = leaf_nodes h" by simp
  from res le' lf' wf' old new neq show ?case
    by blast
next
  case (Suc l)
  let ?B = BRANCHING_FACTOR
  let ?cap = "?B ^ Suc l"
  let ?q = "L div ?cap"
  let ?m = "L mod ?cap"
  from wf_tree_SucD [OF Suc.prems(1)] obtain a where r: "r = Inode_ref a"
    and a: "a < length (inodes h)" and len: "length (inodes h ! a) = ?B"
    and ch': "\<forall>j<?B.
              (if j < ?q then wf_tree h (Suc l) (inodes h ! a ! j) ?cap
               else if j = ?q \<and> ?m \<noteq> 0
               then wf_tree h (Suc l) (inodes h ! a ! j) ?m
               else inodes h ! a ! j = Null_ref)"
    by blast
  note ch = ch' [rule_format]
  have q: "?q < ?B"
    using Suc.prems(2) by (simp add: less_mult_imp_div_less mult.commute)
  have slot: "child_slot (Suc l) j = j div ?B mod ?B ^ Suc (Suc l) div ?cap" for j
    unfolding child_slot_def power_Suc2 [of _ "Suc l"] by (simp add: mod_mult2_eq del: power_Suc)
  have rest: "j div ?B mod ?cap = j div ?B mod ?B ^ Suc (Suc l) mod ?cap" for j
    by (simp add: mod_mod_cancel le_imp_power_dvd del: power_Suc)
  have si: "child_slot (Suc l) index = ?q"
    using slot [of index] Suc.prems(3) by simp
  have mi: "index div ?B mod ?cap = ?m"
    using rest [of index] Suc.prems(3) by simp
  let ?c = "inodes h ! a ! ?q"
  have "\<exists>h1 c2. (if get_type ?c = null_node
                  then make_new_path h (int (Suc l) * BRANCHING_FACTOR_SHIFT) (Leaf_ref b)
                  else append_leaf_node h ?c (int (Suc l) * BRANCHING_FACTOR_SHIFT) index
                         (Leaf_ref b)) = Inr (h1, c2)
     \<and> heap_le h h1 \<and> leaf_nodes h1 = leaf_nodes h
     \<and> wf_tree h1 (Suc l) c2 (Suc ?m)
     \<and> (\<forall>j. j div ?B mod ?cap < ?m \<longrightarrow> tree_leaf h1 (Suc l) c2 j = tree_leaf h (Suc l) ?c j)
     \<and> (\<forall>j. j div ?B mod ?cap = ?m \<longrightarrow> tree_leaf h1 (Suc l) c2 j = b)"
  proof (cases "?m = 0")
    case True
    with ch [OF q] have "?c = Null_ref" by simp
    with make_new_path_tree [OF b, of "Suc l"] True show ?thesis
      by (auto simp del: power_Suc wf_tree.simps of_nat_Suc)
  next
    case False
    with ch [OF q] have wfc: "wf_tree h (Suc l) ?c ?m" by simp
    then have "?c \<noteq> Null_ref" by (rule wf_tree_not_null)
    moreover have "?m < ?cap" by simp
    ultimately show ?thesis
      using Suc.IH [OF wfc _ mi] by (auto simp del: power_Suc wf_tree.simps of_nat_Suc)
  qed
  then obtain h1 c2 where
    step: "(if get_type ?c = null_node
            then make_new_path h (int (Suc l) * BRANCHING_FACTOR_SHIFT) (Leaf_ref b)
            else append_leaf_node h ?c (int (Suc l) * BRANCHING_FACTOR_SHIFT) index
                   (Leaf_ref b)) = Inr (h1, c2)"
    and le: "heap_le h h1" and lf: "leaf_nodes h1 = leaf_nodes h"
    and wfc2: "wf_tree h1 (Suc l) c2 (Suc ?m)"
    and oldc: "\<And>j. j div ?B mod ?cap < ?m \<Longrightarrow>
                 tree_leaf h1 (Suc l) c2 j = tree_leaf h (Suc l) ?c j"
    and newc: "\<And>j. j div ?B mod ?cap = ?m \<Longrightarrow> tree_leaf h1 (Suc l) c2 j = b"
    by blast
  let ?cs = "(inodes h ! a)[?q := c2]"
  let ?h' = "fst (new_inode h1 ?cs)"
  let ?r' = "snd (new_inode h1 ?cs)"
  have ne: "int (Suc (Suc l)) * BRANCHING_FACTOR_SHIFT \<noteq> LOWEST_LEVEL_INODE_SHIFT"
    by (simp add: LOWEST_LEVEL_INODE_SHIFT_def BRANCHING_FACTOR_SHIFT_def)
  have res: "append_leaf_node h r (int (Suc (Suc l)) * BRANCHING_FACTOR_SHIFT) index (Leaf_ref b)
      = Inr (?h', ?r')"
    unfolding r
    apply (subst append_leaf_node.simps)
    apply (simp only: ne shift_level_Suc slot_index_Suc si)
    using step q
    apply (simp add: get_inode_def a len make_inode_from_array_def prod_eq_iff
        del: of_nat_Suc split: if_splits)
    done
  have le1: "heap_le h1 ?h'" by (rule heap_le_new_inode)
  have le': "heap_le h ?h'" using le le1 by (rule heap_le_trans)
  have lencs: "length ?cs = ?B" using len by simp
  have wf': "wf_tree ?h' (Suc (Suc l)) ?r' (Suc L)"
    using Suc.prems(1) [unfolded r] le Suc.prems(2) wfc2
    by (rule wf_tree_append_child)
  have old: "\<forall>j. j div ?B mod ?B ^ Suc (Suc l) < L
            \<longrightarrow> tree_leaf ?h' (Suc (Suc l)) ?r' j = tree_leaf h (Suc (Suc l)) r j"
  proof (intro allI impI)
    fix j
    let ?k = "j div ?B mod ?B ^ Suc (Suc l)"
    assume k: "?k < L"
    with Suc.prems(1) have pj: "path_ok h (Suc (Suc l)) r j"
      by (rule wf_tree_path_ok)
    then have pc: "path_ok h (Suc l) (inodes h ! a ! child_slot (Suc l) j) j"
      by (simp add: r)
    show "tree_leaf ?h' (Suc (Suc l)) ?r' j = tree_leaf h (Suc (Suc l)) r j"
    proof (cases "child_slot (Suc l) j = ?q")
      case True
      then have e: "?cs ! child_slot (Suc l) j = c2" using len q by simp
      have "?k mod ?cap < ?m"
      proof -
        have "?k = ?cap * (?k div ?cap) + ?k mod ?cap" by simp
        moreover have "L = ?cap * ?q + ?m" by simp
        ultimately show ?thesis
          using k True slot [of j] by (metis nat_add_left_cancel_less)
      qed
      then have lt: "j div ?B mod ?cap < ?m" using rest [of j] by simp
      then have "j div ?B mod ?cap < Suc ?m" by simp
      with wfc2 have "path_ok h1 (Suc l) c2 j" by (rule wf_tree_path_ok)
      with heap_le_path_ok [OF le1, of "Suc l" c2 j] oldc [OF lt] True
      show ?thesis
        unfolding path_ok_new_inode [OF lencs] e
        by (simp add: r del: tree_leaf.simps) (simp add: r)
    next
      case False
      then have e: "?cs ! child_slot (Suc l) j = inodes h ! a ! child_slot (Suc l) j" by simp
      from pc heap_le_path_ok [OF le', of "Suc l" "inodes h ! a ! child_slot (Suc l) j" j]
      show ?thesis
        unfolding path_ok_new_inode [OF lencs] e
        by (simp add: r)
    qed
  qed
  have new: "\<forall>j. j div ?B mod ?B ^ Suc (Suc l) = L
            \<longrightarrow> tree_leaf ?h' (Suc (Suc l)) ?r' j = b"
  proof (intro allI impI)
    fix j
    assume k: "j div ?B mod ?B ^ Suc (Suc l) = L"
    then have sj: "child_slot (Suc l) j = ?q" and mj: "j div ?B mod ?cap = ?m"
      using slot [of j] rest [of j] by simp_all
    then have e: "?cs ! child_slot (Suc l) j = c2" using len q by simp
    from wfc2 have "path_ok h1 (Suc l) c2 j"
      by (rule wf_tree_path_ok) (simp only: mj lessI)
    with heap_le_path_ok [OF le1, of "Suc l" c2 j] newc [OF mj]
    show "tree_leaf ?h' (Suc (Suc l)) ?r' j = b"
      unfolding path_ok_new_inode [OF lencs] e by simp
  qed
  have neq: "?r' \<noteq> Null_ref" by simp
  have lf': "leaf_nodes ?h' = leaf_nodes h" using lf by simp
  from res le' lf' wf' old new neq show ?case
    by blast
qed

subsection \<open>Blocks and levels of a vector\<close>

lemma divide_round_up_B:
  "divide_round_up n BRANCHING_FACTOR
     = (if n mod BRANCHING_FACTOR = 0 then n div BRANCHING_FACTOR
        else Suc (n div BRANCHING_FACTOR))"
proof -
  let ?B = BRANCHING_FACTOR
  let ?q = "n div ?B"
  have n: "n = ?B * ?q + n mod ?B" by simp
  have B0: "0 < ?B" by simp
  show ?thesis
  proof (cases "n mod ?B = 0")
    case True
    with n have "n = ?B * ?q" by simp
    then have "n + ?B - 1 = ?B * ?q + (?B - 1)"
      using B0 by linarith
    moreover have "(?B - 1) div ?B = 0"
      using B0 by (intro div_less) linarith
    then have "(?B * ?q + (?B - 1)) div ?B = ?q"
      by simp
    ultimately show ?thesis
      using True by (simp add: divide_round_up_def)
  next
    case False
    define m where "m = n mod ?B"
    with False have m: "0 < m" "m < ?B" by simp_all
    have "n = ?B * ?q + m" using n by (simp only: m_def)
    then have "n + ?B - 1 = ?B * ?q + ?B + (m - 1)"
      using m by linarith
    then have "n + ?B - 1 = ?B * Suc ?q + (m - 1)"
      by simp
    moreover have "(m - 1) div ?B = 0"
      using m by (intro div_less) linarith
    then have "(?B * Suc ?q + (m - 1)) div ?B = Suc ?q"
      by (simp del: mult_Suc_right)
    ultimately show ?thesis
      using False by (simp add: divide_round_up_def)
  qed
qed

lemma div_less_divide_round_up:
  "index < n \<Longrightarrow> index div BRANCHING_FACTOR < divide_round_up n BRANCHING_FACTOR"
proof -
  assume a: "index < n"
  let ?B = BRANCHING_FACTOR
  have le: "index div ?B \<le> n div ?B" using a by (simp add: div_le_mono)
  show ?thesis
  proof (cases "n mod ?B = 0")
    case True
    then have "n = ?B * (n div ?B)" by auto
    with a have "index < ?B * (n div ?B)" by simp
    then have "index div ?B < n div ?B"
      by (simp add: less_mult_imp_div_less mult.commute)
    with True show ?thesis by (simp add: divide_round_up_B)
  next
    case False
    with le show ?thesis by (simp add: divide_round_up_B)
  qed
qed

lemma divide_round_up_le_power:
  assumes "n \<le> BRANCHING_FACTOR ^ Suc l"
  shows "divide_round_up n BRANCHING_FACTOR \<le> BRANCHING_FACTOR ^ l"
proof -
  let ?B = BRANCHING_FACTOR
  have B0: "0 < ?B" by simp
  from assms have "n \<le> ?B * ?B ^ l" by simp
  then have "n + ?B - 1 < ?B * ?B ^ l + ?B" using B0 by linarith
  then have "n + ?B - 1 < ?B * Suc (?B ^ l)" by simp
  then have "(n + ?B - 1) div ?B < Suc (?B ^ l)"
    by (simp only: less_mult_imp_div_less mult.commute)
  then show ?thesis by (simp add: divide_round_up_def)
qed

text \<open>What a well-formed vector that is not empty consists of.\<close>

lemma wf_vector_nonempty_iff:
  "0 < v_size v \<Longrightarrow>
     wf_vector h v \<longleftrightarrow>
       v_shift v = vector_size_to_shift (v_size v) \<and>
       wf_tree h (nat (v_shift v div BRANCHING_FACTOR_SHIFT)) (v_root v)
         (divide_round_up (v_size v) BRANCHING_FACTOR)"
  by (simp add: wf_vector_def)

lemma wf_vector_nonempty:
  assumes "wf_vector h v" and "0 < v_size v"
  shows "\<exists>l. v_shift v = int l * BRANCHING_FACTOR_SHIFT
     \<and> v_size v \<le> BRANCHING_FACTOR ^ Suc l
     \<and> (l = 0 \<or> BRANCHING_FACTOR ^ l < v_size v)
     \<and> wf_tree h l (v_root v) (divide_round_up (v_size v) BRANCHING_FACTOR)"
proof -
  from assms(2) obtain l where l: "vector_size_to_shift (v_size v) = int l * BRANCHING_FACTOR_SHIFT"
    "v_size v \<le> BRANCHING_FACTOR ^ Suc l" "l = 0 \<or> BRANCHING_FACTOR ^ l < v_size v"
    by (rule vector_size_to_shift_cases)
  from assms(1) have "v_shift v = vector_size_to_shift (v_size v) \<and>
       wf_tree h (nat (v_shift v div BRANCHING_FACTOR_SHIFT)) (v_root v)
         (divide_round_up (v_size v) BRANCHING_FACTOR)"
    unfolding wf_vector_nonempty_iff [OF assms(2)] .
  then have s: "v_shift v = vector_size_to_shift (v_size v)"
    and t: "wf_tree h (nat (v_shift v div BRANCHING_FACTOR_SHIFT)) (v_root v)
             (divide_round_up (v_size v) BRANCHING_FACTOR)"
    by blast+
  have "nat (v_shift v div BRANCHING_FACTOR_SHIFT) = l"
    unfolding s l(1) by (rule level_of_shift)
  with t s l show ?thesis
    by (intro exI [of _ l]) simp
qed

lemma wf_vector_intro:
  assumes "0 < n" and "n \<le> BRANCHING_FACTOR ^ Suc l" and "l = 0 \<or> BRANCHING_FACTOR ^ l < n"
    and "wf_tree h l r (divide_round_up n BRANCHING_FACTOR)"
  shows "wf_vector h (make_vector r n (int l * BRANCHING_FACTOR_SHIFT))"
  using assms vector_size_to_shift_level [OF assms(1-3)]
  by (simp add: wf_vector_def make_vector_def del: power_Suc)

lemma wf_vector_empty [simp]: "wf_vector h empty_vector"
  by (simp add: wf_vector_def empty_vector_def)

lemma heap_le_wf_vector:
  assumes "heap_le h h'" and "wf_vector h v"
  shows "wf_vector h' v"
proof (cases "v_size v = 0")
  case True
  with assms(2) show ?thesis by (simp add: wf_vector_def)
next
  case False
  then have pos: "0 < v_size v" by simp
  from assms(2) have "v_shift v = vector_size_to_shift (v_size v) \<and>
       wf_tree h (nat (v_shift v div BRANCHING_FACTOR_SHIFT)) (v_root v)
         (divide_round_up (v_size v) BRANCHING_FACTOR)"
    unfolding wf_vector_nonempty_iff [OF pos] .
  then have s: "v_shift v = vector_size_to_shift (v_size v)"
    and t: "wf_tree h (nat (v_shift v div BRANCHING_FACTOR_SHIFT)) (v_root v)
             (divide_round_up (v_size v) BRANCHING_FACTOR)"
    by blast+
  from assms(1) t have "wf_tree h' (nat (v_shift v div BRANCHING_FACTOR_SHIFT)) (v_root v)
             (divide_round_up (v_size v) BRANCHING_FACTOR)"
    by (rule heap_le_wf_tree)
  with s show ?thesis unfolding wf_vector_nonempty_iff [OF pos] by blast
qed

text \<open>The leaf of a value depends on its block only.\<close>

lemma child_slot_cong:
  "i div BRANCHING_FACTOR = j div BRANCHING_FACTOR \<Longrightarrow> child_slot l i = child_slot l j"
  by (simp add: child_slot_def)

lemma tree_leaf_cong:
  "i div BRANCHING_FACTOR = j div BRANCHING_FACTOR \<Longrightarrow> tree_leaf h l r i = tree_leaf h l r j"
  by (induction l arbitrary: r) (auto simp: child_slot_cong [of i j] split: node_ref.splits)

text \<open>In a vector every value has its leaf, and so has every slot of the last leaf.\<close>

lemma wf_vector_path_ok:
  assumes "wf_vector h v" and "index div BRANCHING_FACTOR < divide_round_up (v_size v) BRANCHING_FACTOR"
  shows "path_ok h (nat (v_shift v div BRANCHING_FACTOR_SHIFT)) (v_root v) index"
proof -
  let ?B = BRANCHING_FACTOR
  from assms(2) have "0 < v_size v"
    by (cases "v_size v = 0") (simp_all add: divide_round_up_B)
  with assms(1) obtain l where l: "v_shift v = int l * BRANCHING_FACTOR_SHIFT"
    "v_size v \<le> ?B ^ Suc l" "wf_tree h l (v_root v) (divide_round_up (v_size v) ?B)"
    using wf_vector_nonempty by blast
  have "index div ?B < ?B ^ l"
    using assms(2) divide_round_up_le_power [OF l(2)] by simp
  then have "index div ?B mod ?B ^ l < divide_round_up (v_size v) ?B"
    using assms(2) by simp
  with l(3) show ?thesis
    unfolding l(1) level_of_shift by (rule wf_tree_path_ok)
qed

lemma heap_le_contents:
  assumes "heap_le h h'" and "wf_vector h v"
  shows "contents h' v = contents h v"
proof -
  let ?l = "nat (v_shift v div BRANCHING_FACTOR_SHIFT)"
  have "tree_get h' ?l (v_root v) i = tree_get h ?l (v_root v) i" if "i < v_size v" for i
  proof -
    from that have "path_ok h ?l (v_root v) i"
      by (intro wf_vector_path_ok assms div_less_divide_round_up)
    with heap_le_path_ok [OF assms(1) this] path_ok_leaf [OF this] heap_le_leaf [OF assms(1)]
    show ?thesis by (simp add: tree_get_def)
  qed
  then show ?thesis by (simp add: contents_def)
qed

lemma length_contents [simp]: "length (contents h v) = v_size v"
  by (simp add: contents_def)

lemma nth_contents:
  "i < v_size v \<Longrightarrow>
     contents h v ! i = tree_get h (nat (v_shift v div BRANCHING_FACTOR_SHIFT)) (v_root v) i"
  by (simp add: contents_def)

subsection \<open>find\_leaf\_node, operator[], get\_block\<close>

lemma find_leaf_node_wf:
  assumes "wf_vector h v" and "index < v_size v"
  shows "find_leaf_node h v index
     = Inr (Leaf_ref (tree_leaf h (nat (v_shift v div BRANCHING_FACTOR_SHIFT)) (v_root v) index))"
proof -
  from assms have p: "path_ok h (nat (v_shift v div BRANCHING_FACTOR_SHIFT)) (v_root v) index"
    by (intro wf_vector_path_ok div_less_divide_round_up)
  from assms obtain l where l: "v_shift v = int l * BRANCHING_FACTOR_SHIFT"
    using wf_vector_nonempty [of h v] by auto
  from p show ?thesis
    unfolding l level_of_shift
    by (simp add: find_leaf_node_def l assms(2) find_leaf_loop_path LEAF_NODE_SHIFT_def)
qed

lemma get_leaf_node_path:
  assumes "path_ok h l r index"
  shows "get_leaf_node h (Leaf_ref (tree_leaf h l r index))
           = Inr (leaf_nodes h ! tree_leaf h l r index)"
  using path_ok_leaf [OF assms] by (simp add: get_leaf_node_def)

lemma operator_index_wf:
  assumes "wf_vector h v" and "index < v_size v"
  shows "operator_index h v index = Inr (contents h v ! index)"
proof -
  from assms have p: "path_ok h (nat (v_shift v div BRANCHING_FACTOR_SHIFT)) (v_root v) index"
    by (intro wf_vector_path_ok div_less_divide_round_up)
  show ?thesis
    using path_ok_leaf [OF p]
    by (simp add: operator_index_def assms find_leaf_node_wf get_leaf_node_path [OF p]
        and_mask_mod nth_contents tree_get_def)
qed

lemma operator_index_out_of_range:
  "\<not> index < v_size v \<Longrightarrow> operator_index h v index = Inl Assertion_failed"
  by (simp add: operator_index_def)

lemma get_block_wf:
  assumes "wf_vector h v" and "k < get_block_count v"
  shows "\<exists>vals. get_block h v k = Inr vals \<and> length vals = BRANCHING_FACTOR
     \<and> take (min BRANCHING_FACTOR (v_size v - k * BRANCHING_FACTOR)) vals
         = take BRANCHING_FACTOR (drop (k * BRANCHING_FACTOR) (contents h v))"
proof -
  let ?B = BRANCHING_FACTOR
  let ?l = "nat (v_shift v div BRANCHING_FACTOR_SHIFT)"
  let ?n = "v_size v"
  from assms(2) have k: "k < divide_round_up ?n ?B"
    by (simp add: get_block_count_def)
  have kn: "k * ?B < ?n"
  proof (rule ccontr)
    assume "\<not> k * ?B < ?n"
    then have "?n \<le> k * ?B" by simp
    moreover have "0 < ?B" by simp
    ultimately have "?n + ?B - 1 < k * ?B + ?B" by linarith
    then have "?n + ?B - 1 < Suc k * ?B" by simp
    then have "(?n + ?B - 1) div ?B < Suc k"
      by (simp only: less_mult_imp_div_less)
    with k show False by (simp add: divide_round_up_def)
  qed
  from assms(1) kn have p: "path_ok h ?l (v_root v) (k * ?B)"
    by (intro wf_vector_path_ok div_less_divide_round_up)
  let ?vals = "leaf_nodes h ! tree_leaf h ?l (v_root v) (k * ?B)"
  have len: "length ?vals = ?B" using path_ok_leaf [OF p] by simp
  have gb: "get_block h v k = Inr ?vals"
    using assms(2) by (simp add: get_block_def find_leaf_node_wf [OF assms(1) kn]
        get_leaf_node_path [OF p])
  have "take (min ?B (?n - k * ?B)) ?vals = take ?B (drop (k * ?B) (contents h v))"
  proof (rule nth_equalityI)
    show "length (take (min ?B (?n - k * ?B)) ?vals)
        = length (take ?B (drop (k * ?B) (contents h v)))"
      using len by (simp add: min.commute)
  next
    fix i assume "i < length (take (min ?B (?n - k * ?B)) ?vals)"
    then have "i < ?B \<and> i < ?n - k * ?B" using len by simp
    then have i: "i < ?B" "k * ?B + i < ?n" by linarith+
    then have d: "(k * ?B + i) div ?B = (k * ?B) div ?B" "(k * ?B + i) mod ?B = i"
      by simp_all
    show "take (min ?B (?n - k * ?B)) ?vals ! i = take ?B (drop (k * ?B) (contents h v)) ! i"
      using i by (simp add: nth_contents tree_get_def tree_leaf_cong [OF d(1)] d(2))
  qed
  with gb len show ?thesis by blast
qed

subsection \<open>to\_vec and operator==\<close>

lemma read_range_0 [simp]:
  "n \<le> length xs \<Longrightarrow> read_range xs 0 n = Inr (take n xs)"
  by (simp add: read_range_def)

lemma size_le_blocks: "n \<le> divide_round_up n BRANCHING_FACTOR * BRANCHING_FACTOR"
proof -
  let ?B = BRANCHING_FACTOR
  have n: "n = n div ?B * ?B + n mod ?B" by simp
  show ?thesis
  proof (cases "n mod ?B = 0")
    case True
    with n have "n = n div ?B * ?B" by simp
    with True show ?thesis by (simp add: divide_round_up_B)
  next
    case False
    have "n mod ?B < ?B" by simp
    with n have "n < n div ?B * ?B + ?B" by linarith
    with False show ?thesis by (simp add: divide_round_up_B)
  qed
qed

lemma drop_block:
  "take BRANCHING_FACTOR (drop (k * BRANCHING_FACTOR) xs) @ drop (Suc k * BRANCHING_FACTOR) xs
     = drop (k * BRANCHING_FACTOR) xs"
proof -
  have "drop (Suc k * BRANCHING_FACTOR) xs
      = drop BRANCHING_FACTOR (drop (k * BRANCHING_FACTOR) xs)"
    by (simp add: add.commute)
  then show ?thesis by (simp only: append_take_drop_id)
qed

lemma to_vec_loop_wf:
  assumes "wf_vector h v" and "k \<le> get_block_count v"
  shows "to_vec_loop h v k (get_block_count v) acc
           = Inr (acc @ drop (k * BRANCHING_FACTOR) (contents h v))"
  using assms(2)
proof (induction "get_block_count v - k" arbitrary: k acc)
  case 0
  then have k: "k = get_block_count v" by simp
  have "v_size v \<le> k * BRANCHING_FACTOR"
    unfolding k get_block_count_def by (rule size_le_blocks)
  then show ?case
    by (subst to_vec_loop.simps) (simp add: k)
next
  case (Suc m)
  then have k: "k < get_block_count v" by simp
  from get_block_wf [OF assms(1) k] obtain vals where
    gb: "get_block h v k = Inr vals" and len: "length vals = BRANCHING_FACTOR"
    and tk: "take (min BRANCHING_FACTOR (v_size v - k * BRANCHING_FACTOR)) vals
         = take BRANCHING_FACTOR (drop (k * BRANCHING_FACTOR) (contents h v))"
    by blast
  have "to_vec_loop h v (k + 1) (get_block_count v)
          (acc @ take BRANCHING_FACTOR (drop (k * BRANCHING_FACTOR) (contents h v)))
      = Inr ((acc @ take BRANCHING_FACTOR (drop (k * BRANCHING_FACTOR) (contents h v)))
              @ drop ((k + 1) * BRANCHING_FACTOR) (contents h v))"
    using Suc.hyps(2) k by (intro Suc.hyps(1)) simp_all
  then show ?case
    using k drop_block [of k "contents h v"]
    by (subst to_vec_loop.simps) (simp add: gb len tk)
qed

lemma to_vec_wf: "wf_vector h v \<Longrightarrow> to_vec h v = Inr (contents h v)"
  using to_vec_loop_wf [of h v 0 "[]"] by (simp add: to_vec_def)

lemma equal_loop_wf:
  assumes "wf_vector h v" and "wf_vector h rhs" and "v_size v = v_size rhs"
    and "k \<le> get_block_count v"
  shows "equal_loop h v rhs k (get_block_count v)
           = Inr (drop (k * BRANCHING_FACTOR) (contents h v)
                    = drop (k * BRANCHING_FACTOR) (contents h rhs))"
  using assms(4)
proof (induction "get_block_count v - k" arbitrary: k)
  case 0
  then have k: "k = get_block_count v" by simp
  have "v_size v \<le> k * BRANCHING_FACTOR"
    unfolding k get_block_count_def by (rule size_le_blocks)
  then show ?case
    using assms(3) by (subst equal_loop.simps) (simp add: k)
next
  case (Suc m)
  let ?B = BRANCHING_FACTOR
  from Suc have k: "k < get_block_count v" by simp
  then have k': "k < get_block_count rhs"
    using assms(3) by (simp add: get_block_count_def)
  from get_block_wf [OF assms(1) k] obtain valsA where
    gbA: "get_block h v k = Inr valsA" and lenA: "length valsA = ?B"
    and tkA: "take (min ?B (v_size v - k * ?B)) valsA
         = take ?B (drop (k * ?B) (contents h v))"
    by blast
  from get_block_wf [OF assms(2) k'] obtain valsB where
    gbB: "get_block h rhs k = Inr valsB" and lenB: "length valsB = ?B"
    and tkB: "take (min ?B (v_size v - k * ?B)) valsB
         = take ?B (drop (k * ?B) (contents h rhs))"
    unfolding assms(3) by blast
  have ih: "equal_loop h v rhs (Suc k) (get_block_count v)
      = Inr (drop (?B + k * ?B) (contents h v) = drop (?B + k * ?B) (contents h rhs))"
    using Suc.hyps(2) k Suc.hyps(1) [of "Suc k"] by simp
  have split: "drop (k * ?B) (contents h v) = drop (k * ?B) (contents h rhs)
     \<longleftrightarrow> take ?B (drop (k * ?B) (contents h v)) = take ?B (drop (k * ?B) (contents h rhs))
         \<and> drop (Suc k * ?B) (contents h v) = drop (Suc k * ?B) (contents h rhs)"
    (is "?L \<longleftrightarrow> ?T \<and> ?D")
  proof
    assume l: ?L
    have e: "drop (Suc k * ?B) xs = drop ?B (drop (k * ?B) xs)" for xs :: "'a list"
      by (simp add: add.commute)
    from l have "drop ?B (drop (k * ?B) (contents h v)) = drop ?B (drop (k * ?B) (contents h rhs))"
      by (rule arg_cong)
    then have ?D by (simp only: e)
    moreover from l have ?T by (rule arg_cong)
    ultimately show "?T \<and> ?D" by blast
  next
    assume "?T \<and> ?D"
    then show ?L
      using drop_block [of k "contents h v"] drop_block [of k "contents h rhs"] by simp
  qed
  show ?case
    using k
    by (subst equal_loop.simps) (simp add: gbA gbB lenA lenB tkA tkB ih split)
qed

lemma wf_vector_root_type:
  assumes "wf_vector h v" and "0 < v_size v"
  shows "get_type (v_root v) = (if v_shift v = 0 then leaf_node else inode)"
proof -
  from wf_vector_nonempty [OF assms] obtain l where
    l: "v_shift v = int l * BRANCHING_FACTOR_SHIFT"
    and wf: "wf_tree h l (v_root v) (divide_round_up (v_size v) BRANCHING_FACTOR)"
    by blast
  show ?thesis
  proof (cases l)
    case 0
    with wf l show ?thesis by (auto split: node_ref.splits)
  next
    case (Suc l')
    with wf_tree_SucD [of h l' "v_root v"] wf l show ?thesis
      by (auto simp del: of_nat_Suc)
  qed
qed

lemma wf_vector_shift:
  "wf_vector h v \<Longrightarrow> v_shift v = vector_size_to_shift (v_size v)"
  by (auto simp: wf_vector_def vector_size_to_shift_def)

lemma operator_eq_wf:
  assumes "wf_vector h v" and "wf_vector h rhs"
  shows "operator_eq h v rhs = Inr (contents h v = contents h rhs)"
proof (cases "v_size v = v_size rhs")
  case False
  then have "contents h v \<noteq> contents h rhs"
    by (metis length_contents)
  with False show ?thesis by (simp add: operator_eq_def)
next
  case True
  show ?thesis
  proof (cases "v_size v = 0")
    case z: True
    with True show ?thesis by (simp add: operator_eq_def contents_def)
  next
    case False
    then have pos: "0 < v_size v" "0 < v_size rhs" using True by simp_all
    have sh: "v_shift v = v_shift rhs"
      using wf_vector_shift [OF assms(1)] wf_vector_shift [OF assms(2)] True by simp
    have ty: "get_type (v_root v) = get_type (v_root rhs)"
      using wf_vector_root_type [OF assms(1) pos(1)] wf_vector_root_type [OF assms(2) pos(2)] sh
      by simp
    show ?thesis
    proof (cases "v_root v = v_root rhs")
      case r: True
      have "contents h v = contents h rhs"
        by (simp add: contents_def r sh True)
      moreover have "get_type (v_root v) = inode \<or> get_type (v_root v) = leaf_node"
        using wf_vector_root_type [OF assms(1) pos(1)] by (simp split: if_splits)
      ultimately show ?thesis
        using True False ty r by (auto simp: operator_eq_def)
    next
      case r: False
      with True False ty equal_loop_wf [OF assms True, of 0] show ?thesis
        by (simp add: operator_eq_def)
    qed
  qed
qed

subsection \<open>store\<close>

lemma replace_value_vector:
  assumes wf: "wf_vector h v"
    and idx: "index div BRANCHING_FACTOR < divide_round_up (v_size v) BRANCHING_FACTOR"
  shows "\<exists>h' r'. replace_value h (v_root v) (v_shift v) index x = Inr (h', r')
     \<and> heap_le h h' \<and> r' \<noteq> v_root v
     \<and> wf_tree h' (nat (v_shift v div BRANCHING_FACTOR_SHIFT)) r'
          (divide_round_up (v_size v) BRANCHING_FACTOR)
     \<and> (\<forall>j. j div BRANCHING_FACTOR < divide_round_up (v_size v) BRANCHING_FACTOR \<longrightarrow>
           tree_get h' (nat (v_shift v div BRANCHING_FACTOR_SHIFT)) r' j
             = (if j = index then x
                else tree_get h (nat (v_shift v div BRANCHING_FACTOR_SHIFT)) (v_root v) j))"
proof -
  let ?B = BRANCHING_FACTOR
  let ?n = "v_size v"
  let ?r = "v_root v"
  from idx have pos: "0 < ?n"
    by (cases "?n = 0") (simp_all add: divide_round_up_B)
  from wf_vector_nonempty [OF wf pos] obtain l where
    l: "v_shift v = int l * BRANCHING_FACTOR_SHIFT" and le: "?n \<le> ?B ^ Suc l"
    and wft: "wf_tree h l ?r (divide_round_up ?n ?B)"
    by blast
  have lv: "nat (v_shift v div BRANCHING_FACTOR_SHIFT) = l"
    unfolding l by (rule level_of_shift)
  have small: "j div ?B mod ?B ^ l = j div ?B" if "j div ?B < divide_round_up ?n ?B" for j
    using that divide_round_up_le_power [OF le] by simp
  have p: "path_ok h l ?r j" if "j div ?B < divide_round_up ?n ?B" for j
    using wf_vector_path_ok [OF wf that] by (simp only: lv)
  from replace_value_tree [OF p [OF idx], of x] obtain h' r' where
    rv: "replace_value h ?r (int l * BRANCHING_FACTOR_SHIFT) index x = Inr (h', r')"
    and hl: "heap_le h h'"
    and lf: "leaf_nodes h' = leaf_nodes h
          @ [(leaf_nodes h ! tree_leaf h l ?r index)[index mod ?B := x]]"
    and paths: "\<And>j. path_ok h l ?r j \<Longrightarrow> path_ok h' l r' j
            \<and> tree_leaf h' l r' j =
                (if j div ?B mod ?B ^ l = index div ?B mod ?B ^ l
                 then length (leaf_nodes h) else tree_leaf h l ?r j)"
    and wfs: "\<And>L. wf_tree h l ?r L \<Longrightarrow> wf_tree h' l r' L"
    and neq: "r' \<noteq> ?r"
    by blast
  have get: "tree_get h' l r' j = (if j = index then x else tree_get h l ?r j)"
    if j: "j div ?B < divide_round_up ?n ?B" for j
  proof (cases "j div ?B = index div ?B")
    case True
    then have tl: "tree_leaf h' l r' j = length (leaf_nodes h)"
      using paths [OF p [OF j]] small [OF j] small [OF idx] by simp
    have old: "tree_leaf h l ?r index = tree_leaf h l ?r j"
      using True by (intro tree_leaf_cong) simp
    have len: "length (leaf_nodes h ! tree_leaf h l ?r j) = ?B"
      using path_ok_leaf [OF p [OF j]] by simp
    have "j = index \<longleftrightarrow> j mod ?B = index mod ?B"
      using True by (metis div_mult_mod_eq)
    then show ?thesis
      using len by (simp add: tree_get_def tl lf old nth_list_update)
  next
    case False
    then have tl: "tree_leaf h' l r' j = tree_leaf h l ?r j"
      using paths [OF p [OF j]] small [OF j] small [OF idx] by simp
    have "tree_leaf h l ?r j < length (leaf_nodes h)"
      using path_ok_leaf [OF p [OF j]] by simp
    moreover from False have "j \<noteq> index" by auto
    ultimately show ?thesis
      by (simp add: tree_get_def tl lf nth_append)
  qed
  from rv [folded l] hl neq wfs [OF wft] get show ?thesis
    unfolding lv by blast
qed

lemma store_wf:
  assumes wf: "wf_vector h v" and i: "index < v_size v"
  shows "\<exists>h' v'. store h v index x = Inr (h', v')
     \<and> heap_le h h' \<and> wf_vector h' v'
     \<and> v_size v' = v_size v \<and> v_shift v' = v_shift v \<and> v_root v' \<noteq> v_root v
     \<and> contents h' v' = (contents h v)[index := x]"
proof -
  let ?B = BRANCHING_FACTOR
  let ?l = "nat (v_shift v div BRANCHING_FACTOR_SHIFT)"
  from i have idx: "index div ?B < divide_round_up (v_size v) ?B"
    by (rule div_less_divide_round_up)
  from replace_value_vector [OF wf idx, of x] obtain h' r' where
    rv: "replace_value h (v_root v) (v_shift v) index x = Inr (h', r')"
    and hl: "heap_le h h'" and neq: "r' \<noteq> v_root v"
    and wft: "wf_tree h' ?l r' (divide_round_up (v_size v) ?B)"
    and get: "\<And>j. j div ?B < divide_round_up (v_size v) ?B \<Longrightarrow>
           tree_get h' ?l r' j = (if j = index then x else tree_get h ?l (v_root v) j)"
    by blast
  let ?v' = "make_vector r' (v_size v) (v_shift v)"
  have st: "store h v index x = Inr (h', ?v')"
    using i by (simp add: store_def rv)
  from i have pos: "0 < v_size v" by simp
  have sel: "v_size ?v' = v_size v" "v_shift ?v' = v_shift v" "v_root ?v' = r'"
    by (simp_all add: make_vector_def)
  have pos': "0 < v_size ?v'" using pos by (simp only: sel)
  have wf': "wf_vector h' ?v'"
    using wf wft unfolding wf_vector_nonempty_iff [OF pos] wf_vector_nonempty_iff [OF pos'] sel
    by blast
  have "contents h' ?v' = (contents h v)[index := x]"
  proof (rule nth_equalityI)
    show "length (contents h' ?v') = length ((contents h v)[index := x])"
      by (simp add: make_vector_def)
  next
    fix j assume "j < length (contents h' ?v')"
    then have j: "j < v_size v" by (simp add: make_vector_def)
    then have "j div ?B < divide_round_up (v_size v) ?B"
      by (rule div_less_divide_round_up)
    from get [OF this] j show "contents h' ?v' ! j = (contents h v)[index := x] ! j"
      by (simp add: nth_contents make_vector_def nth_list_update)
  qed
  with st hl wf' neq show ?thesis
    by (intro exI [of _ h'] exI [of _ ?v']) (simp add: make_vector_def)
qed

subsection \<open>The example vectors are well formed\<close>

lemma B_numeral: "BRANCHING_FACTOR = 32"
  by (simp add: BRANCHING_FACTOR_def BRANCHING_FACTOR_SHIFT_def)

lemma vector_size_to_shift_3: "vector_size_to_shift 3 = 0"
  by (simp add: vector_size_to_shift_def first_fitting_level.simps shift_to_max_size_def
      B_numeral BRANCHING_FACTOR_SHIFT_def)

lemma vector_size_to_shift_33: "vector_size_to_shift 33 = 5"
  by (simp add: vector_size_to_shift_def first_fitting_level.simps shift_to_max_size_def
      B_numeral BRANCHING_FACTOR_SHIFT_def)

lemma example_vector_wf: "wf_vector example_heap example_vector"
  by (simp add: wf_vector_def example_vector_def example_heap_def vector_size_to_shift_3
      BRANCHING_FACTOR_SHIFT_def divide_round_up_def B_numeral array_init_def)

lemma example_vector2_wf: "wf_vector example_heap example_vector2"
  by (simp add: wf_vector_def example_vector2_def example_heap_def vector_size_to_shift_3
      BRANCHING_FACTOR_SHIFT_def divide_round_up_def B_numeral array_init_def)

lemma example_vector33_wf: "wf_vector example_heap example_vector33"
proof -
  have w: "wf_tree example_heap (Suc 0) (Inode_ref 0) 2"
    by (simp add: example_heap_def B_numeral array_init_def nth_append nth_Cons'
        less_Suc_eq)
  have "nat (5 div BRANCHING_FACTOR_SHIFT) = Suc 0" "divide_round_up 33 BRANCHING_FACTOR = 2"
    by (simp_all add: BRANCHING_FACTOR_SHIFT_def divide_round_up_def B_numeral)
  with w show ?thesis
    by (simp add: wf_vector_def example_vector33_def vector_size_to_shift_33
        del: wf_tree.simps)
qed


lemma example_contents:
  "contents example_heap example_vector = [10, 20, 30]"
  "contents example_heap example_vector2 = [10, 20, 31]"
  by (simp_all add: contents_def example_heap_def example_vector_def example_vector2_def
      tree_get_def B_numeral BRANCHING_FACTOR_SHIFT_def array_init_def upt_rec)

lemma example_contents33:
  "contents example_heap example_vector33 ! 32 = 10"
  by (simp add: contents_def example_heap_def example_vector33_def child_slot_def
      tree_get_def B_numeral BRANCHING_FACTOR_SHIFT_def array_init_def)

lemma example_vector_size [simp]:
  "v_size example_vector = 3" "v_size example_vector2 = 3" "v_size example_vector33 = 33"
  by (simp_all add: example_vector_def example_vector2_def example_vector33_def)

subsection \<open>push\_back\_leaf\_node\<close>

lemma divide_round_up_add_leaf:
  assumes "n mod BRANCHING_FACTOR = 0" and "0 < cnt" and "cnt \<le> BRANCHING_FACTOR"
  shows "divide_round_up (n + cnt) BRANCHING_FACTOR = Suc (n div BRANCHING_FACTOR)"
proof (cases "cnt = BRANCHING_FACTOR")
  case True
  with assms(1) show ?thesis by (simp add: divide_round_up_B div_add_self2)
next
  case False
  with assms have c: "cnt < BRANCHING_FACTOR" by simp
  have "(n + cnt) mod BRANCHING_FACTOR = cnt"
    using assms(1) c by (simp add: mod_add_eq [symmetric, of n] del: mod_add_eq)
  moreover have "(n + cnt) div BRANCHING_FACTOR = n div BRANCHING_FACTOR"
    using assms(1) c by (simp add: div_add1_eq)
  ultimately show ?thesis
    using assms(2) by (simp add: divide_round_up_B)
qed

text \<open>
  The values of a vector that has a further leaf: the old values, then the values
  of the new leaf.
\<close>

lemma contents_extend:
  assumes sz: "v_size v' = v_size v + cnt" and cnt: "cnt \<le> BRANCHING_FACTOR"
    and full: "v_size v mod BRANCHING_FACTOR = 0"
    and old: "\<And>j. j < v_size v \<Longrightarrow>
        tree_get h' (nat (v_shift v' div BRANCHING_FACTOR_SHIFT)) (v_root v') j
          = tree_get h (nat (v_shift v div BRANCHING_FACTOR_SHIFT)) (v_root v) j"
    and new: "\<And>j. v_size v \<le> j \<Longrightarrow> j < v_size v + cnt \<Longrightarrow>
        tree_leaf h' (nat (v_shift v' div BRANCHING_FACTOR_SHIFT)) (v_root v') j = b"
    and len: "length vals = BRANCHING_FACTOR" and lf: "leaf_nodes h' ! b = vals"
  shows "contents h' v' = contents h v @ take cnt vals"
proof (rule nth_equalityI)
  show "length (contents h' v') = length (contents h v @ take cnt vals)"
    using sz cnt len by simp
next
  fix j assume "j < length (contents h' v')"
  then have j: "j < v_size v + cnt" by (simp add: sz)
  show "contents h' v' ! j = (contents h v @ take cnt vals) ! j"
  proof (cases "j < v_size v")
    case True
    with j old [OF True] show ?thesis
      by (simp add: nth_contents sz nth_append)
  next
    case False
    then have ge: "v_size v \<le> j" by simp
    define i where "i = j - v_size v"
    with ge j have i: "j = v_size v + i" "i < cnt" by simp_all
    with cnt have "i < BRANCHING_FACTOR" by simp
    then have "j mod BRANCHING_FACTOR = i"
      using full by (simp add: i(1) mod_add_eq [symmetric, of "v_size v"] del: mod_add_eq)
    with new [OF ge j] i False show ?thesis
      by (simp add: nth_contents sz nth_append tree_get_def lf)
  qed
qed

lemma make_vector_sel [simp]:
  "v_root (make_vector r n s) = r" "v_size (make_vector r n s) = n"
  "v_shift (make_vector r n s) = s"
  by (simp_all add: make_vector_def)

lemma block_of_new_leaf:
  assumes "n mod BRANCHING_FACTOR = 0" and "n \<le> j" and "j < n + cnt" and "cnt \<le> BRANCHING_FACTOR"
  shows "j div BRANCHING_FACTOR = n div BRANCHING_FACTOR"
proof -
  let ?B = BRANCHING_FACTOR
  define i where "i = j - n"
  with assms have i: "j = n + i" "i < ?B" by simp_all
  then show ?thesis
    using assms(1) by (simp add: div_add1_eq)
qed

lemma block_of_old:
  assumes "n mod BRANCHING_FACTOR = 0" and "j < n"
  shows "j div BRANCHING_FACTOR < n div BRANCHING_FACTOR"
proof -
  from assms(1) have "n = BRANCHING_FACTOR * (n div BRANCHING_FACTOR)" by auto
  then have "n = n div BRANCHING_FACTOR * BRANCHING_FACTOR" by (simp only: mult.commute)
  with assms(2) have "j < n div BRANCHING_FACTOR * BRANCHING_FACTOR" by simp
  then show ?thesis by (simp only: less_mult_imp_div_less)
qed

lemma twice_le_mult:
  fixes b x :: nat
  assumes "2 \<le> b"
  shows "x + x \<le> b * x"
proof -
  from assms obtain c where "b = 2 + c" using le_Suc_ex by blast
  then show ?thesis by (simp add: algebra_simps)
qed

lemma shift_level_add:
  "int l * BRANCHING_FACTOR_SHIFT + BRANCHING_FACTOR_SHIFT = int (Suc l) * BRANCHING_FACTOR_SHIFT"
  by (simp add: algebra_simps)

lemma push_back_leaf_node_wf:
  assumes wf: "wf_vector h v" and full: "v_size v mod BRANCHING_FACTOR = 0"
    and b: "b < length (leaf_nodes h)" "length (leaf_nodes h ! b) = BRANCHING_FACTOR"
    and cnt: "0 < cnt" "cnt \<le> BRANCHING_FACTOR"
  shows "\<exists>h' v'. push_back_leaf_node h v (Leaf_ref b) cnt = Inr (h', v')
     \<and> heap_le h h' \<and> leaf_nodes h' = leaf_nodes h \<and> wf_vector h' v'
     \<and> v_size v' = v_size v + cnt
     \<and> contents h' v' = contents h v @ take cnt (leaf_nodes h ! b)"
proof (cases "v_size v = 0")
  case True
  let ?B = BRANCHING_FACTOR
  let ?v' = "make_vector (Leaf_ref b) cnt LEAF_NODE_SHIFT"
  have res: "push_back_leaf_node h v (Leaf_ref b) cnt = Inr (h, ?v')"
    using True cnt by (simp add: push_back_leaf_node_def and_mask_mod)
  have "divide_round_up cnt ?B = 1"
    using divide_round_up_add_leaf [of 0 cnt] cnt by simp
  then have "wf_tree h 0 (Leaf_ref b) (divide_round_up cnt ?B)"
    using b by simp
  with cnt have "wf_vector h (make_vector (Leaf_ref b) cnt (int 0 * BRANCHING_FACTOR_SHIFT))"
    by (intro wf_vector_intro) simp_all
  then have wf': "wf_vector h ?v'" by (simp add: LEAF_NODE_SHIFT_def)
  have "contents h ?v' = contents h v @ take cnt (leaf_nodes h ! b)"
    using cnt b True
    by (intro contents_extend [where b = b]) (simp_all add: LEAF_NODE_SHIFT_def)
  with res wf' True show ?thesis
    by (intro exI [of _ h] exI [of _ ?v']) simp
next
  case False
  let ?B = BRANCHING_FACTOR
  let ?n = "v_size v"
  let ?r = "v_root v"
  from False have pos: "0 < ?n" by simp
  from wf_vector_nonempty [OF wf pos] obtain l where
    l: "v_shift v = int l * BRANCHING_FACTOR_SHIFT" and le: "?n \<le> ?B ^ Suc l"
    and low: "l = 0 \<or> ?B ^ l < ?n"
    and wft: "wf_tree h l ?r (divide_round_up ?n ?B)"
    by blast
  have lv: "nat (v_shift v div BRANCHING_FACTOR_SHIFT) = l"
    unfolding l by (rule level_of_shift)
  have L: "divide_round_up ?n ?B = ?n div ?B"
    using full by (simp add: divide_round_up_B)
  have nq: "?n = ?B * (?n div ?B)" using full by auto
  have Bn: "?B \<le> ?n"
  proof (rule ccontr)
    assume "\<not> ?B \<le> ?n"
    then have "?n mod ?B = ?n" by simp
    with full pos show False by simp
  qed
  have guard: "\<not> (get_type (Leaf_ref b) \<noteq> leaf_node
         \<or> (?n AND BRANCHING_FACTOR_MASK) \<noteq> 0 \<or> \<not> cnt \<le> ?B)"
    using full cnt by (simp add: and_mask_mod)
  have old_path: "path_ok h l ?r j" if "j < ?n" for j
    using wf_vector_path_ok [OF wf div_less_divide_round_up [OF that]] by (simp only: lv)
  have small: "j div ?B < ?B ^ l" if "j < ?n" for j
    using div_less_divide_round_up [OF that] divide_round_up_le_power [OF le] by simp
  show ?thesis
  proof (cases "?n + cnt \<le> ?B ^ Suc l")
    case fits: True
    have "l \<noteq> 0"
    proof
      assume "l = 0"
      with fits have "?n + cnt \<le> ?B" by simp
      with Bn cnt show False by simp
    qed
    then obtain l0 where l0: "l = Suc l0" by (cases l) simp_all
    have Ll: "?n div ?B < ?B ^ Suc l0"
    proof -
      have "?n < ?B * ?B ^ l" using fits cnt by simp
      then show ?thesis
        unfolding l0 [symmetric] by (simp only: less_mult_imp_div_less mult.commute)
    qed
    then have idx: "?n div ?B mod ?B ^ Suc l0 = ?n div ?B" by simp
    from append_leaf_node_tree [OF wft [unfolded L l0] Ll idx b] obtain h' r' where
      ap: "append_leaf_node h ?r (int (Suc l0) * BRANCHING_FACTOR_SHIFT) ?n (Leaf_ref b)
             = Inr (h', r')"
      and hl: "heap_le h h'" and lf: "leaf_nodes h' = leaf_nodes h"
      and wf': "wf_tree h' (Suc l0) r' (Suc (?n div ?B))"
      and old: "\<And>j. j div ?B mod ?B ^ Suc l0 < ?n div ?B \<Longrightarrow>
                 tree_leaf h' (Suc l0) r' j = tree_leaf h (Suc l0) ?r j"
      and new: "\<And>j. j div ?B mod ?B ^ Suc l0 = ?n div ?B \<Longrightarrow>
                 tree_leaf h' (Suc l0) r' j = b"
      by blast
    let ?v' = "make_vector r' (?n + cnt) (int l * BRANCHING_FACTOR_SHIFT)"
    have res: "push_back_leaf_node h v (Leaf_ref b) cnt = Inr (h', ?v')"
      unfolding push_back_leaf_node_def if_not_P [OF guard] Let_def
      using False fits ap by (simp add: l shift_to_max_size_level l0 del: of_nat_Suc power_Suc)
    have wfv: "wf_vector h' ?v'"
    proof (rule wf_vector_intro)
      show "wf_tree h' l r' (divide_round_up (?n + cnt) ?B)"
        using wf' by (simp only: divide_round_up_add_leaf [OF full cnt] l0)
      show "l = 0 \<or> ?B ^ l < ?n + cnt" using low cnt by auto
      show "0 < ?n + cnt" using cnt by simp
      show "?n + cnt \<le> ?B ^ Suc l" by fact
    qed
    have "contents h' ?v' = contents h v @ take cnt (leaf_nodes h ! b)"
    proof (rule contents_extend [where b = b])
      show "v_size ?v' = ?n + cnt" by simp
      show "cnt \<le> ?B" by fact
      show "?n mod ?B = 0" by fact
      show "length (leaf_nodes h ! b) = ?B" by fact
      show "leaf_nodes h' ! b = leaf_nodes h ! b" by (simp only: lf)
    next
      fix j assume j: "j < ?n"
      have "j div ?B mod ?B ^ Suc l0 < ?n div ?B"
        using small [OF j] block_of_old [OF full j] by (simp add: l0)
      from old [OF this] show "tree_get h' (nat (v_shift ?v' div BRANCHING_FACTOR_SHIFT))
             (v_root ?v') j = tree_get h (nat (v_shift v div BRANCHING_FACTOR_SHIFT)) ?r j"
        by (simp add: tree_get_def lv lf l0 del: of_nat_Suc tree_leaf.simps)
    next
      fix j assume j: "?n \<le> j" "j < ?n + cnt"
      have "j div ?B mod ?B ^ Suc l0 = ?n div ?B"
        using block_of_new_leaf [OF full j cnt(2)] Ll by simp
      from new [OF this] show "tree_leaf h' (nat (v_shift ?v' div BRANCHING_FACTOR_SHIFT))
             (v_root ?v') j = b"
        by (simp add: l0 del: of_nat_Suc tree_leaf.simps)
    qed
    with res hl lf wfv show ?thesis
      by (intro exI [of _ h'] exI [of _ ?v']) simp
  next
    case grows: False
    have n: "?n = ?B ^ Suc l"
    proof (rule ccontr)
      assume "?n \<noteq> ?B ^ Suc l"
      with le have "?n < ?B * ?B ^ l" by simp
      then have "?B * (?n div ?B) < ?B * ?B ^ l" using nq by simp
      then have "?n div ?B < ?B ^ l" by simp
      then have "Suc (?n div ?B) \<le> ?B ^ l" by simp
      then have "?B * Suc (?n div ?B) \<le> ?B * ?B ^ l" by (simp only: mult_le_mono2)
      then have "?n + ?B \<le> ?B ^ Suc l" using nq by simp
      with cnt grows show False by simp
    qed
    then have nd: "?n div ?B = ?B ^ l" by simp
    from make_new_path_tree [OF b, of l] obtain h1 p where
      mk: "make_new_path h (int l * BRANCHING_FACTOR_SHIFT) (Leaf_ref b) = Inr (h1, p)"
      and hl1: "heap_le h h1" and lf1: "leaf_nodes h1 = leaf_nodes h"
      and wfp: "wf_tree h1 l p 1"
      and leafp: "\<And>j. j div ?B mod ?B ^ l = 0 \<Longrightarrow> tree_leaf h1 l p j = b"
      by blast
    let ?cs = "array_init [?r, p] Null_ref"
    let ?h' = "fst (new_inode h1 ?cs)"
    let ?r' = "snd (new_inode h1 ?cs)"
    let ?v' = "make_vector ?r' (?n + cnt) (int (Suc l) * BRANCHING_FACTOR_SHIFT)"
    have res: "push_back_leaf_node h v (Leaf_ref b) cnt = Inr (?h', ?v')"
      unfolding push_back_leaf_node_def if_not_P [OF guard] Let_def
      using False grows mk
      by (simp add: l shift_to_max_size_level make_inode_from_array_def split_beta
          shift_level_add del: power_Suc of_nat_Suc)
    have le1: "heap_le h1 ?h'" by (rule heap_le_new_inode)
    have le': "heap_le h ?h'" using hl1 le1 by (rule heap_le_trans)
    have two: "2 \<le> ?B" by (simp add: B_numeral)
    have lencs: "length ?cs = ?B" using two by simp
    have cs0: "?cs ! 0 = ?r" and cs1: "?cs ! Suc 0 = p"
      using two by (simp_all add: nth_array_init)
    have csn: "?cs ! j = Null_ref" if "2 \<le> j" "j < ?B" for j
      using that by (simp add: nth_array_init)
    have wfr: "wf_tree ?h' l ?r (?B ^ l)"
      using le' wft by (simp only: L nd heap_le_wf_tree)
    have wfp': "wf_tree ?h' l p 1" using le1 wfp by (rule heap_le_wf_tree)
    have wf': "wf_tree ?h' (Suc l) ?r' (Suc (?B ^ l))"
    proof (rule wf_tree_new_inode [OF lencs])
      show "0 < Suc (?B ^ l)" by simp
      have "?B ^ l + ?B ^ l \<le> ?B * ?B ^ l"
        using two by (rule twice_le_mult)
      moreover have "1 \<le> ?B ^ l" by (simp add: Suc_leI)
      ultimately show "Suc (?B ^ l) \<le> ?B ^ Suc l" by simp
    next
      fix j assume j: "j < ?B"
      show "if j < Suc (?B ^ l) div ?B ^ l then wf_tree ?h' l (?cs ! j) (?B ^ l)
            else if j = Suc (?B ^ l) div ?B ^ l \<and> Suc (?B ^ l) mod ?B ^ l \<noteq> 0
            then wf_tree ?h' l (?cs ! j) (Suc (?B ^ l) mod ?B ^ l)
            else ?cs ! j = Null_ref"
      proof (cases l)
        case 0
        then have d: "Suc (?B ^ l) div ?B ^ l = 2" "Suc (?B ^ l) mod ?B ^ l = 0" "?B ^ l = 1"
          by simp_all
        consider "j = 0" | "j = 1" | "2 \<le> j" by linarith
        then show ?thesis
        proof cases
          case 1 with wfr show ?thesis unfolding d by (simp add: cs0 d(3))
        next
          case 2 with wfp' show ?thesis unfolding d by (simp add: cs1)
        next
          case 3 with csn [OF 3 j] show ?thesis unfolding d by simp
        qed
      next
        case (Suc l')
        then have "1 < ?B ^ l" by (intro B_pow_gt1) simp
        then have d: "Suc (?B ^ l) div ?B ^ l = 1" "Suc (?B ^ l) mod ?B ^ l = 1"
          by (simp_all add: div_Suc mod_Suc)
        consider "j = 0" | "j = 1" | "2 \<le> j" by linarith
        then show ?thesis
        proof cases
          case 1 with wfr show ?thesis unfolding d by (simp add: cs0)
        next
          case 2 with wfp' show ?thesis unfolding d by (simp add: cs1)
        next
          case 3 with csn [OF 3 j] show ?thesis unfolding d by simp
        qed
      qed
    qed
    have wfv: "wf_vector ?h' ?v'"
    proof (rule wf_vector_intro)
      show "wf_tree ?h' (Suc l) ?r' (divide_round_up (?n + cnt) ?B)"
        using wf' by (simp only: divide_round_up_add_leaf [OF full cnt] nd)
      have "?n + ?n \<le> ?B * ?n" using two by (rule twice_le_mult)
      with cnt Bn have "?n + cnt \<le> ?B * ?n" by linarith
      then show "?n + cnt \<le> ?B ^ Suc (Suc l)" unfolding n by simp
      show "Suc l = 0 \<or> ?B ^ Suc l < ?n + cnt" using n cnt by simp
      show "0 < ?n + cnt" using cnt by simp
    qed
    have "contents ?h' ?v' = contents h v @ take cnt (leaf_nodes h ! b)"
    proof (rule contents_extend [where b = b])
      show "v_size ?v' = ?n + cnt" by simp
      show "cnt \<le> ?B" by fact
      show "?n mod ?B = 0" by fact
      show "length (leaf_nodes h ! b) = ?B" by fact
      show "leaf_nodes ?h' ! b = leaf_nodes h ! b" by (simp add: lf1)
    next
      fix j assume j: "j < ?n"
      from small [OF j] have s: "child_slot l j = 0"
        by (simp add: child_slot_def)
      from heap_le_path_ok [OF le' old_path [OF j]]
      have "tree_leaf ?h' l ?r j = tree_leaf h l ?r j" by simp
      then have "tree_leaf ?h' (Suc l) ?r' j = tree_leaf h l ?r j"
        unfolding path_ok_new_inode [OF lencs] s cs0 .
      then show "tree_get ?h' (nat (v_shift ?v' div BRANCHING_FACTOR_SHIFT))
             (v_root ?v') j = tree_get h (nat (v_shift v div BRANCHING_FACTOR_SHIFT)) ?r j"
        by (simp add: tree_get_def lv lf1 del: of_nat_Suc tree_leaf.simps)
    next
      fix j assume j: "?n \<le> j" "j < ?n + cnt"
      have jd: "j div ?B = ?B ^ l"
        using block_of_new_leaf [OF full j cnt(2)] nd by simp
      then have s: "child_slot l j = Suc 0"
        using two by (simp add: child_slot_def)
      have z: "j div ?B mod ?B ^ l = 0" by (simp add: jd)
      from wfp have "path_ok h1 l p j"
        by (rule wf_tree_path_ok) (simp add: z)
      from heap_le_path_ok [OF le1 this] leafp [OF z]
      have "tree_leaf ?h' l p j = b" by simp
      then have "tree_leaf ?h' (Suc l) ?r' j = b"
        unfolding path_ok_new_inode [OF lencs] s cs1 .
      then show "tree_leaf ?h' (nat (v_shift ?v' div BRANCHING_FACTOR_SHIFT))
             (v_root ?v') j = b"
        by (simp del: of_nat_Suc tree_leaf.simps)
    qed
    with res le' lf1 wfv show ?thesis
      by (intro exI [of _ ?h'] exI [of _ ?v']) simp
  qed
qed

subsection \<open>push\_back\<close>

lemma divide_round_up_Suc_partial:
  assumes "n mod BRANCHING_FACTOR \<noteq> 0"
  shows "divide_round_up (Suc n) BRANCHING_FACTOR = divide_round_up n BRANCHING_FACTOR"
  using assms by (simp add: divide_round_up_B div_Suc mod_Suc)

lemma partial_below_capacity:
  assumes "n \<le> BRANCHING_FACTOR ^ Suc l" and "n mod BRANCHING_FACTOR \<noteq> 0"
  shows "n < BRANCHING_FACTOR ^ Suc l"
proof (rule ccontr)
  assume "\<not> n < BRANCHING_FACTOR ^ Suc l"
  with assms(1) have "n = BRANCHING_FACTOR ^ Suc l" by simp
  then have "n mod BRANCHING_FACTOR = 0" by simp
  with assms(2) show False by simp
qed

lemma push_back_1_wf:
  assumes wf: "wf_vector h v"
  shows "\<exists>h' v'. push_back_1 h d v x = Inr (h', v')
     \<and> heap_le h h' \<and> wf_vector h' v'
     \<and> v_size v' = Suc (v_size v)
     \<and> contents h' v' = contents h v @ [x]"
proof (cases "v_size v mod BRANCHING_FACTOR = 0")
  case True
  let ?B = BRANCHING_FACTOR
  let ?h1 = "fst (new_leaf_node h (array_init [x] d))"
  let ?b = "length (leaf_nodes h)"
  have le1: "heap_le h ?h1" by (rule heap_le_new_leaf_node)
  have wf1: "wf_vector ?h1 v" using le1 wf by (rule heap_le_wf_vector)
  have b: "?b < length (leaf_nodes ?h1)" "length (leaf_nodes ?h1 ! ?b) = ?B"
    by (simp_all add: Suc_leI)
  from push_back_leaf_node_wf [OF wf1 True b, of 1] obtain h' v' where
    pb: "push_back_leaf_node ?h1 v (Leaf_ref ?b) 1 = Inr (h', v')"
    and le2: "heap_le ?h1 h'" and wf': "wf_vector h' v'"
    and sz: "v_size v' = v_size v + 1"
    and c: "contents h' v' = contents ?h1 v @ take 1 (leaf_nodes ?h1 ! ?b)"
    by (auto simp: Suc_leI)
  have res: "push_back_1 h d v x = Inr (h', v')"
    using True pb
    by (simp add: push_back_1_def and_mask_mod make_leaf_node_def split_beta)
  have "take 1 (leaf_nodes ?h1 ! ?b) = [x]"
    by (simp add: array_init_def)
  moreover have "contents ?h1 v = contents h v" using le1 wf by (rule heap_le_contents)
  ultimately have "contents h' v' = contents h v @ [x]" using c by simp
  moreover have "heap_le h h'" using le1 le2 by (rule heap_le_trans)
  ultimately show ?thesis using res wf' sz by auto
next
  case False
  let ?B = BRANCHING_FACTOR
  let ?n = "v_size v"
  let ?l = "nat (v_shift v div BRANCHING_FACTOR_SHIFT)"
  from False have pos: "0 < ?n" by (cases "?n = 0") simp_all
  from wf_vector_nonempty [OF wf pos] obtain l where
    l: "v_shift v = int l * BRANCHING_FACTOR_SHIFT" and le: "?n \<le> ?B ^ Suc l"
    and low: "l = 0 \<or> ?B ^ l < ?n"
    by blast
  have lv: "?l = l" unfolding l by (rule level_of_shift)
  have idx: "?n div ?B < divide_round_up ?n ?B"
    using False by (simp add: divide_round_up_B)
  from replace_value_vector [OF wf idx, of x] obtain h' r' where
    rv: "replace_value h (v_root v) (v_shift v) ?n x = Inr (h', r')"
    and hl: "heap_le h h'"
    and wft: "wf_tree h' ?l r' (divide_round_up ?n ?B)"
    and get: "\<And>j. j div ?B < divide_round_up ?n ?B \<Longrightarrow>
           tree_get h' ?l r' j = (if j = ?n then x else tree_get h ?l (v_root v) j)"
    by blast
  let ?v' = "make_vector r' (?n + 1) (v_shift v)"
  have res: "push_back_1 h d v x = Inr (h', ?v')"
    using False rv by (simp add: push_back_1_def and_mask_mod)
  have wf': "wf_vector h' ?v'"
    unfolding l
  proof (rule wf_vector_intro)
    show "0 < ?n + 1" by simp
    show "?n + 1 \<le> ?B ^ Suc l" using partial_below_capacity [OF le False] by simp
    show "l = 0 \<or> ?B ^ l < ?n + 1" using low by auto
    show "wf_tree h' l r' (divide_round_up (?n + 1) ?B)"
      using wft divide_round_up_Suc_partial [OF False] by (simp add: lv)
  qed
  have "contents h' ?v' = contents h v @ [x]"
  proof (rule nth_equalityI)
    show "length (contents h' ?v') = length (contents h v @ [x])" by simp
  next
    fix j assume "j < length (contents h' ?v')"
    then have j: "j < Suc ?n" by simp
    then have "j div ?B \<le> ?n div ?B" by (simp add: div_le_mono)
    with idx have "j div ?B < divide_round_up ?n ?B" by simp
    from get [OF this] j show "contents h' ?v' ! j = (contents h v @ [x]) ! j"
      by (cases "j = ?n") (simp_all add: nth_contents nth_append)
  qed
  with res hl wf' show ?thesis
    by (intro exI [of _ h'] exI [of _ ?v']) simp
qed

lemma operator_index_total:
  assumes "wf_vector h v"
  shows "operator_index h v j
     = (if j < v_size v then Inr (contents h v ! j) else Inl Assertion_failed)"
  using operator_index_wf [OF assms, of j] operator_index_out_of_range [of j v h]
  by simp

lemma canonical_wf: "wf_vector h v \<Longrightarrow> canonical v"
proof (cases "v_size v = 0")
  case True
  assume "wf_vector h v"
  with True show ?thesis by (simp add: wf_vector_def canonical_def)
next
  case False
  assume wf: "wf_vector h v"
  from False have pos: "0 < v_size v" by simp
  from wf_vector_root_type [OF wf pos] have "get_type (v_root v) \<noteq> null_node"
    by (simp split: if_splits)
  with False wf_vector_shift [OF wf] show ?thesis
    by (simp add: canonical_def)
qed

text \<open>Appending a list of values one at a time (the loop of the test scenario).\<close>

lemma push_back_values_wf:
  assumes "wf_vector h v"
  shows "\<exists>h' v'. push_back_values h d v xs = Inr (h', v')
     \<and> heap_le h h' \<and> wf_vector h' v'
     \<and> v_size v' = v_size v + length xs
     \<and> contents h' v' = contents h v @ xs"
  using assms
proof (induction xs arbitrary: h v)
  case Nil
  then show ?case by simp
next
  case (Cons x xs)
  from push_back_1_wf [OF Cons.prems, of d x] obtain h1 v1 where
    pb: "push_back h d v x = Inr (h1, v1)" and le1: "heap_le h h1"
    and wf1: "wf_vector h1 v1" and sz1: "v_size v1 = Suc (v_size v)"
    and c1: "contents h1 v1 = contents h v @ [x]"
    unfolding push_back_def by blast
  from Cons.IH [OF wf1] obtain h' v' where
    r: "push_back_values h1 d v1 xs = Inr (h', v')" and le2: "heap_le h1 h'"
    and wf': "wf_vector h' v'" and sz: "v_size v' = v_size v1 + length xs"
    and c: "contents h' v' = contents h1 v1 @ xs"
    by blast
  have "heap_le h h'" using le1 le2 by (rule heap_le_trans)
  with pb r wf' sz sz1 c c1 show ?case by simp
qed

lemma contents_empty_vector [simp]: "contents h empty_vector = []"
  by (simp add: contents_def empty_vector_def)

lemma v_size_empty_vector [simp]: "v_size empty_vector = 0"
  by (simp add: empty_vector_def)

lemma vector_size_to_shift_values:
  "vector_size_to_shift 32 = 0" "vector_size_to_shift 1024 = 5" "vector_size_to_shift 1025 = 10"
proof -
  show "vector_size_to_shift 32 = 0"
    using vector_size_to_shift_level [of 32 0] by (simp add: B_numeral)
  show "vector_size_to_shift 1024 = 5"
    using vector_size_to_shift_level [of 1024 1]
    by (simp add: B_numeral BRANCHING_FACTOR_SHIFT_def)
  show "vector_size_to_shift 1025 = 10"
    using vector_size_to_shift_level [of 1025 2]
    by (simp add: B_numeral BRANCHING_FACTOR_SHIFT_def)
qed

text \<open>The scenario: the values \<open>0, \<dots>, n - 1\<close> appended to the empty vector.\<close>

lemma push_back_upto:
  "\<exists>h v. push_back_values empty_heap d empty_vector (map int [0..<n]) = Inr (h, v)
     \<and> v_size v = n \<and> v_shift v = vector_size_to_shift n
     \<and> (\<forall>k<n. operator_index h v k = Inr (int k))"
proof -
  from push_back_values_wf [OF wf_vector_empty, of empty_heap d "map int [0..<n]"]
  obtain h v where
    r: "push_back_values empty_heap d empty_vector (map int [0..<n]) = Inr (h, v)"
    and wf: "wf_vector h v" and sz: "v_size v = n"
    and c: "contents h v = map int [0..<n]"
    by auto
  have "operator_index h v k = Inr (int k)" if "k < n" for k
    using that by (simp add: operator_index_total [OF wf] sz c)
  with r sz wf_vector_shift [OF wf] show ?thesis by auto
qed

subsection \<open>push\_back\_batch\<close>

lemma length_copy_into:
  "pos + length src \<le> length dst \<Longrightarrow> length (copy_into dst pos src) = length dst"
  by (simp add: copy_into_def)

lemma nth_copy_into:
  assumes "pos + length src \<le> length dst" and "i < length dst"
  shows "copy_into dst pos src ! i
     = (if i < pos then dst ! i else if i < pos + length src then src ! (i - pos) else dst ! i)"
  using assms by (auto simp: copy_into_def nth_append)

lemma read_range_ok:
  "pos + n \<le> length xs \<Longrightarrow> read_range xs pos n = Inr (take n (drop pos xs))"
  by (simp add: read_range_def)

lemma replace_leaf_node_vector:
  assumes wf: "wf_vector h v"
    and idx: "index div BRANCHING_FACTOR < divide_round_up (v_size v) BRANCHING_FACTOR"
    and b: "b < length (leaf_nodes h)" "length (leaf_nodes h ! b) = BRANCHING_FACTOR"
  shows "\<exists>h' r'. replace_leaf_node h (v_root v) (v_shift v) index (Leaf_ref b) = Inr (h', r')
     \<and> heap_le h h' \<and> leaf_nodes h' = leaf_nodes h
     \<and> wf_tree h' (nat (v_shift v div BRANCHING_FACTOR_SHIFT)) r'
          (divide_round_up (v_size v) BRANCHING_FACTOR)
     \<and> (\<forall>j. j div BRANCHING_FACTOR < divide_round_up (v_size v) BRANCHING_FACTOR \<longrightarrow>
           tree_leaf h' (nat (v_shift v div BRANCHING_FACTOR_SHIFT)) r' j
             = (if j div BRANCHING_FACTOR = index div BRANCHING_FACTOR then b
                else tree_leaf h (nat (v_shift v div BRANCHING_FACTOR_SHIFT)) (v_root v) j))"
proof -
  let ?B = BRANCHING_FACTOR
  let ?n = "v_size v"
  let ?r = "v_root v"
  from idx have pos: "0 < ?n"
    by (cases "?n = 0") (simp_all add: divide_round_up_B)
  from wf_vector_nonempty [OF wf pos] obtain l where
    l: "v_shift v = int l * BRANCHING_FACTOR_SHIFT" and le: "?n \<le> ?B ^ Suc l"
    and wft: "wf_tree h l ?r (divide_round_up ?n ?B)"
    by blast
  have lv: "nat (v_shift v div BRANCHING_FACTOR_SHIFT) = l"
    unfolding l by (rule level_of_shift)
  have small: "j div ?B mod ?B ^ l = j div ?B" if "j div ?B < divide_round_up ?n ?B" for j
    using that divide_round_up_le_power [OF le] by simp
  have p: "path_ok h l ?r j" if "j div ?B < divide_round_up ?n ?B" for j
    using wf_vector_path_ok [OF wf that] by (simp only: lv)
  from replace_leaf_node_tree [OF p [OF idx] b] obtain h' r' where
    rl: "replace_leaf_node h ?r (int l * BRANCHING_FACTOR_SHIFT) index (Leaf_ref b) = Inr (h', r')"
    and hl: "heap_le h h'" and lf: "leaf_nodes h' = leaf_nodes h"
    and paths: "\<And>j. path_ok h l ?r j \<Longrightarrow> path_ok h' l r' j
            \<and> tree_leaf h' l r' j =
                (if j div ?B mod ?B ^ l = index div ?B mod ?B ^ l
                 then b else tree_leaf h l ?r j)"
    and wfs: "\<And>L. wf_tree h l ?r L \<Longrightarrow> wf_tree h' l r' L"
    by blast
  have "tree_leaf h' l r' j = (if j div ?B = index div ?B then b else tree_leaf h l ?r j)"
    if j: "j div ?B < divide_round_up ?n ?B" for j
    using paths [OF p [OF j]] small [OF j] small [OF idx] by simp
  with rl [folded l] hl lf wfs [OF wft] show ?thesis
    unfolding lv by blast
qed

lemma block_start:
  fixes n :: nat
  defines "m \<equiv> n mod BRANCHING_FACTOR"
  shows "(n - m) mod BRANCHING_FACTOR = 0" and "(n - m) div BRANCHING_FACTOR = n div BRANCHING_FACTOR"
    and "n = (n - m) + m" and "m < BRANCHING_FACTOR"
proof -
  let ?B = BRANCHING_FACTOR
  have n: "n = ?B * (n div ?B) + m" by (simp add: m_def)
  then have e: "n - m = ?B * (n div ?B)" by simp
  show "(n - m) mod ?B = 0" unfolding e by simp
  show "(n - m) div ?B = n div ?B" unfolding e by simp
  show "n = (n - m) + m" using n by simp
  show "m < ?B" by (simp add: m_def)
qed

lemma add_block_le_capacity:
  assumes "a mod BRANCHING_FACTOR = 0" and "a < BRANCHING_FACTOR ^ Suc l"
  shows "a + BRANCHING_FACTOR \<le> BRANCHING_FACTOR ^ Suc l"
proof -
  let ?B = BRANCHING_FACTOR
  from assms(1) have a: "a = ?B * (a div ?B)" by auto
  with assms(2) have "?B * (a div ?B) < ?B * ?B ^ l" by simp
  then have "a div ?B < ?B ^ l" by simp
  then have "Suc (a div ?B) \<le> ?B ^ l" by simp
  then have "?B * Suc (a div ?B) \<le> ?B * ?B ^ l" by (simp only: mult_le_mono2)
  with a show ?thesis by simp
qed

lemma push_back_batch_pad_wf:
  assumes wf: "wf_vector h v" and cnt: "count \<le> length buf"
  shows "\<exists>h' v' pos. push_back_batch_pad h d v buf count = Inr (h', v', pos)
     \<and> heap_le h h' \<and> wf_vector h' v' \<and> pos \<le> count
     \<and> v_size v' = v_size v + pos
     \<and> contents h' v' = contents h v @ take pos buf
     \<and> (pos = count \<or> v_size v' mod BRANCHING_FACTOR = 0)"
proof (cases "v_size v mod BRANCHING_FACTOR = 0")
  case True
  then have "push_back_batch_pad h d v buf count = Inr (h, v, 0)"
    by (simp add: push_back_batch_pad_def and_mask_mod)
  with wf True show ?thesis by simp
next
  case False
  let ?B = BRANCHING_FACTOR
  let ?n = "v_size v"
  let ?r = "v_root v"
  let ?l = "nat (v_shift v div BRANCHING_FACTOR_SHIFT)"
  define m where "m = ?n mod ?B"
  define cc where "cc = min (?B - m) count"
  define i0 where "i0 = ?n - m"
  note bs = block_start [of ?n, folded m_def i0_def]
  from False have m: "0 < m" "m < ?B" by (simp_all add: m_def)
  then have pos: "0 < ?n" using bs(3) by simp
  have i0n: "i0 < ?n" using m pos by (simp add: i0_def)
  have mcc: "m + cc \<le> ?B" "cc \<le> count" "cc \<le> length buf"
    using m cnt by (simp_all add: cc_def)
  from wf_vector_nonempty [OF wf pos] obtain l where
    l: "v_shift v = int l * BRANCHING_FACTOR_SHIFT" and le: "?n \<le> ?B ^ Suc l"
    and low: "l = 0 \<or> ?B ^ l < ?n"
    by blast
  have lv: "?l = l" unfolding l by (rule level_of_shift)
  have blocks: "divide_round_up ?n ?B = Suc (i0 div ?B)"
    using False bs(2) by (simp add: divide_round_up_B)
  have p0: "path_ok h ?l ?r i0"
    using wf by (rule wf_vector_path_ok) (simp add: blocks)
  let ?a = "tree_leaf h ?l ?r i0"
  let ?prev = "leaf_nodes h ! ?a"
  have a: "?a < length (leaf_nodes h)" "length ?prev = ?B"
    using path_ok_leaf [OF p0] by simp_all
  let ?newvals = "copy_into (copy_into (array_init [] d) 0 (take m ?prev)) m (take cc buf)"
  have len0: "length (copy_into (array_init [] d) 0 (take m ?prev)) = ?B"
    using m a by (simp add: length_copy_into)
  have lennew: "length ?newvals = ?B"
    using mcc len0 by (simp add: length_copy_into)
  let ?h1 = "fst (new_leaf_node h ?newvals)"
  let ?b = "length (leaf_nodes h)"
  have le1: "heap_le h ?h1" by (rule heap_le_new_leaf_node)
  have wf1: "wf_vector ?h1 v" using le1 wf by (rule heap_le_wf_vector)
  have b: "?b < length (leaf_nodes ?h1)" "length (leaf_nodes ?h1 ! ?b) = ?B"
    using lennew by simp_all
  have idx: "i0 div ?B < divide_round_up ?n ?B" by (simp add: blocks)
  from replace_leaf_node_vector [OF wf1 idx b] obtain h2 r' where
    rl: "replace_leaf_node ?h1 ?r (v_shift v) i0 (Leaf_ref ?b) = Inr (h2, r')"
    and le2: "heap_le ?h1 h2" and lf2: "leaf_nodes h2 = leaf_nodes ?h1"
    and wft: "wf_tree h2 ?l r' (divide_round_up ?n ?B)"
    and leaf: "\<And>j. j div ?B < divide_round_up ?n ?B \<Longrightarrow>
           tree_leaf h2 ?l r' j = (if j div ?B = i0 div ?B then ?b else tree_leaf ?h1 ?l ?r j)"
    by blast
  let ?v' = "make_vector r' (?n + cc) (v_shift v)"
  have res: "push_back_batch_pad h d v buf count = Inr (h2, ?v', cc)"
    using False m mcc a rl
    by (simp add: push_back_batch_pad_def and_mask_mod and_not_mask Let_def
        m_def [symmetric] i0_def [symmetric] cc_def [symmetric]
        find_leaf_node_wf [OF wf i0n] get_leaf_node_path [OF p0] read_range_ok split_beta)
  have hl: "heap_le h h2" using le1 le2 by (rule heap_le_trans)
  have ncc: "?n + cc = i0 + (m + cc)" using bs(3) by simp
  have below: "?n + cc \<le> i0 + ?B" using ncc mcc by simp
  have wf': "wf_vector h2 ?v'"
    unfolding l
  proof (rule wf_vector_intro)
    show "0 < ?n + cc" using pos by simp
    have "i0 < ?B ^ Suc l" using i0n le by simp
    with bs(1) have "i0 + ?B \<le> ?B ^ Suc l" by (rule add_block_le_capacity)
    with below show "?n + cc \<le> ?B ^ Suc l" by simp
    show "l = 0 \<or> ?B ^ l < ?n + cc" using low by auto
    have "divide_round_up (?n + cc) ?B = Suc (i0 div ?B)"
      unfolding ncc using bs(1) m mcc by (intro divide_round_up_add_leaf) simp_all
    then show "wf_tree h2 l r' (divide_round_up (?n + cc) ?B)"
      using wft by (simp add: blocks lv)
  qed
  have "contents h2 ?v' = contents h v @ take cc buf"
  proof (rule nth_equalityI)
    show "length (contents h2 ?v') = length (contents h v @ take cc buf)"
      using mcc by simp
  next
    fix j assume "j < length (contents h2 ?v')"
    then have j: "j < ?n + cc" by simp
    have jb: "j div ?B < divide_round_up ?n ?B"
    proof -
      from bs(1) have "i0 = ?B * (i0 div ?B)" by auto
      then have "i0 + ?B = Suc (i0 div ?B) * ?B" by (simp add: mult.commute)
      with j below have "j < (Suc (i0 div ?B)) * ?B" by linarith
      then have "j div ?B < Suc (i0 div ?B)"
        by (simp only: less_mult_imp_div_less)
      then show ?thesis by (simp add: blocks)
    qed
    have pj: "path_ok h ?l ?r j" using wf jb by (rule wf_vector_path_ok)
    have tl1: "tree_leaf ?h1 ?l ?r j = tree_leaf h ?l ?r j"
      using heap_le_path_ok [OF le1 pj] by simp
    have get: "contents h2 ?v' ! j = leaf_nodes ?h1 ! tree_leaf h2 ?l r' j ! (j mod ?B)"
      using j by (simp add: nth_contents tree_get_def lf2)
    show "contents h2 ?v' ! j = (contents h v @ take cc buf) ! j"
    proof (cases "i0 \<le> j")
      case True
      define i where "i = j - i0"
      with True have ji: "j = i0 + i" by simp
      with j ncc have i: "i < m + cc" by simp
      with mcc have iB: "i < ?B" by simp
      have jd: "j div ?B = i0 div ?B" and jm: "j mod ?B = i"
        using bs(1) iB unfolding ji
        by (simp_all add: div_add1_eq mod_add_eq [symmetric, of i0] del: mod_add_eq)
      have val: "contents h2 ?v' ! j = ?newvals ! i"
        unfolding get leaf [OF jb] jm using jd by simp
      have nv: "?newvals ! i = (if i < m then ?prev ! i else buf ! (i - m))"
        using i iB mcc m a len0
        by (simp add: nth_copy_into length_copy_into)
      show ?thesis
      proof (cases "i < m")
        case lt: True
        then have jn: "j < ?n" using ji bs(3) by simp
        have "tree_leaf h ?l ?r j = ?a"
          using jd by (rule tree_leaf_cong)
        with jn lt show ?thesis
          unfolding val nv by (simp add: nth_append nth_contents tree_get_def jm)
      next
        case ge: False
        then have jn: "\<not> j < ?n" "j - ?n = i - m" using ji bs(3) by simp_all
        with ge i show ?thesis
          unfolding val nv by (simp add: nth_append)
      qed
    next
      case False
      then have lt: "j < i0" by simp
      then have jn: "j < ?n" using i0n by simp
      have "j div ?B < i0 div ?B" using bs(1) lt by (rule block_of_old)
      then have ne: "j div ?B \<noteq> i0 div ?B" by simp
      have "tree_leaf h ?l ?r j < length (leaf_nodes h)"
        using path_ok_leaf [OF pj] by simp
      with jn ne show ?thesis
        unfolding get leaf [OF jb] tl1
        by (simp add: nth_append nth_contents tree_get_def)
    qed
  qed
  moreover have "cc = count \<or> (?n + cc) mod ?B = 0"
  proof (cases "cc = count")
    case True then show ?thesis by simp
  next
    case False
    then have "cc = ?B - m" by (simp add: cc_def min_def split: if_splits)
    with m have "?n + cc = i0 + ?B" using ncc by simp
    then show ?thesis using bs(1) by simp
  qed
  ultimately show ?thesis
    using res hl wf' mcc
    by (intro exI [of _ h2] exI [of _ ?v'] exI [of _ cc]) simp
qed

lemma push_back_batch_loop_wf:
  assumes "wf_vector h v" and "pos \<le> count" and "count \<le> length buf"
    and "pos = count \<or> v_size v mod BRANCHING_FACTOR = 0"
  shows "\<exists>h' v'. push_back_batch_loop h d v buf pos count = Inr (h', v')
     \<and> heap_le h h' \<and> wf_vector h' v'
     \<and> v_size v' = v_size v + (count - pos)
     \<and> contents h' v' = contents h v @ take (count - pos) (drop pos buf)"
  using assms
proof (induction "count - pos" arbitrary: h v pos rule: less_induct)
  case less
  let ?B = BRANCHING_FACTOR
  show ?case
  proof (cases "pos < count")
    case False
    with less.prems have "pos = count" by simp
    then have "push_back_batch_loop h d v buf pos count = Inr (h, v)"
      by (subst push_back_batch_loop.simps) simp
    with less.prems \<open>pos = count\<close> show ?thesis by simp
  next
    case True
    with less.prems have full: "v_size v mod ?B = 0" by simp
    define bc where "bc = min (count - pos) ?B"
    have bc: "0 < bc" "bc \<le> ?B" "pos + bc \<le> count" "pos + bc \<le> length buf"
      using True less.prems(3) by (simp_all add: bc_def)
    let ?part = "take bc (drop pos buf)"
    have lenpart: "length ?part = bc" using bc by simp
    let ?vals = "copy_into (array_init [] d) 0 ?part"
    have lenvals: "length ?vals = ?B"
      using bc lenpart by (simp add: length_copy_into)
    have tk: "take bc ?vals = ?part"
      using lenpart by (simp add: copy_into_def)
    let ?h1 = "fst (new_leaf_node h ?vals)"
    let ?b = "length (leaf_nodes h)"
    have le1: "heap_le h ?h1" by (rule heap_le_new_leaf_node)
    have wf1: "wf_vector ?h1 v" using le1 less.prems(1) by (rule heap_le_wf_vector)
    have b: "?b < length (leaf_nodes ?h1)" "length (leaf_nodes ?h1 ! ?b) = ?B"
      using lenvals by simp_all
    from push_back_leaf_node_wf [OF wf1 full b bc(1,2)] obtain h2 v2 where
      pb: "push_back_leaf_node ?h1 v (Leaf_ref ?b) bc = Inr (h2, v2)"
      and le2: "heap_le ?h1 h2" and wf2: "wf_vector h2 v2"
      and sz2: "v_size v2 = v_size v + bc"
      and c2: "contents h2 v2 = contents ?h1 v @ take bc (leaf_nodes ?h1 ! ?b)"
      by blast
    have c2': "contents h2 v2 = contents h v @ ?part"
      using c2 tk heap_le_contents [OF le1 less.prems(1)] by simp
    have next_ok: "pos + bc = count \<or> v_size v2 mod ?B = 0"
    proof (cases "bc = ?B")
      case True
      with full show ?thesis by (simp add: sz2)
    next
      case False
      then have "bc = count - pos" by (simp add: bc_def min_def split: if_splits)
      with bc show ?thesis by simp
    qed
    have "count - (pos + bc) < count - pos" using bc True by simp
    from less.hyps [OF this wf2 bc(3) less.prems(3) next_ok] obtain h' v' where
      r: "push_back_batch_loop h2 d v2 buf (pos + bc) count = Inr (h', v')"
      and le3: "heap_le h2 h'" and wf': "wf_vector h' v'"
      and sz: "v_size v' = v_size v2 + (count - (pos + bc))"
      and c: "contents h' v' = contents h2 v2 @ take (count - (pos + bc)) (drop (pos + bc) buf)"
      by blast
    have res: "push_back_batch_loop h d v buf pos count = Inr (h', v')"
      using True full bc pb r
      by (subst push_back_batch_loop.simps)
        (simp add: and_mask_mod Let_def bc_def [symmetric] read_range_ok split_beta)
    have "take (count - pos) (drop pos buf)
        = ?part @ take (count - (pos + bc)) (drop (pos + bc) buf)"
    proof -
      have "count - pos = bc + (count - (pos + bc))" using bc by simp
      then have "take (count - pos) (drop pos buf)
          = take (bc + (count - (pos + bc))) (drop pos buf)" by simp
      also have "\<dots> = ?part @ take (count - (pos + bc)) (drop bc (drop pos buf))"
        by (rule take_add)
      finally show ?thesis by (simp add: add.commute)
    qed
    then have "contents h' v' = contents h v @ take (count - pos) (drop pos buf)"
      using c c2' by simp
    moreover have "heap_le h h'"
      using heap_le_trans [OF le1 le2] le3 by (rule heap_le_trans)
    moreover have "v_size v' = v_size v + (count - pos)"
      using sz sz2 bc by simp
    ultimately show ?thesis using res wf' by blast
  qed
qed

lemma push_back_batch_wf:
  assumes wf: "wf_vector h v" and cnt: "count \<le> length buf"
  shows "\<exists>h' v'. push_back_batch h d v (Some buf) count = Inr (h', v')
     \<and> heap_le h h' \<and> wf_vector h' v'
     \<and> v_size v' = v_size v + count
     \<and> contents h' v' = contents h v @ take count buf"
proof -
  from push_back_batch_pad_wf [OF wf cnt, of d] obtain h1 v1 pos where
    pad: "push_back_batch_pad h d v buf count = Inr (h1, v1, pos)"
    and le1: "heap_le h h1" and wf1: "wf_vector h1 v1" and pos: "pos \<le> count"
    and sz1: "v_size v1 = v_size v + pos"
    and c1: "contents h1 v1 = contents h v @ take pos buf"
    and ok: "pos = count \<or> v_size v1 mod BRANCHING_FACTOR = 0"
    by (elim exE conjE) (rule that)
  from push_back_batch_loop_wf [OF wf1 pos cnt ok, of d] obtain h' v' where
    lp: "push_back_batch_loop h1 d v1 buf pos count = Inr (h', v')"
    and le2: "heap_le h1 h'" and wf': "wf_vector h' v'"
    and sz: "v_size v' = v_size v1 + (count - pos)"
    and c: "contents h' v' = contents h1 v1 @ take (count - pos) (drop pos buf)"
    by blast
  have size: "v_size v' = v_size v + count" using sz sz1 pos by simp
  have "take count buf = take pos buf @ take (count - pos) (drop pos buf)"
  proof -
    have "take count buf = take (pos + (count - pos)) buf" using pos by simp
    also have "\<dots> = take pos buf @ take (count - pos) (drop pos buf)" by (rule take_add)
    finally show ?thesis .
  qed
  then have "contents h' v' = contents h v @ take count buf" using c c1 by simp
  moreover have "heap_le h h'" using le1 le2 by (rule heap_le_trans)
  moreover have "push_back_batch h d v (Some buf) count = Inr (h', v')"
    by (simp add: push_back_batch_def pad lp size)
  ultimately show ?thesis using wf' size by blast
qed

subsection \<open>The constructors from a buffer, pop\_back, operator+\<close>

lemma vector_from_std_vector_wf:
  "\<exists>h' v'. vector_from_std_vector h d xs = Inr (h', v')
     \<and> heap_le h h' \<and> wf_vector h' v' \<and> v_size v' = length xs \<and> contents h' v' = xs"
proof (cases "xs = []")
  case True
  then show ?thesis by (simp add: vector_from_std_vector_def)
next
  case False
  from push_back_batch_wf [OF wf_vector_empty order_refl, of h d xs] obtain h' v' where
    "push_back_batch h d empty_vector (Some xs) (length xs) = Inr (h', v')"
    "heap_le h h'" "wf_vector h' v'" "v_size v' = length xs" "contents h' v' = xs"
    by auto
  with False show ?thesis by (simp add: vector_from_std_vector_def)
qed

lemma vector_from_array_wf:
  assumes "count \<le> length buf"
  shows "\<exists>h' v'. vector_from_array h d (Some buf) count = Inr (h', v')
     \<and> heap_le h h' \<and> wf_vector h' v' \<and> v_size v' = count
     \<and> contents h' v' = take count buf"
proof -
  from push_back_batch_wf [OF wf_vector_empty assms, of h d] obtain h' v' where
    "push_back_batch h d empty_vector (Some buf) count = Inr (h', v')"
    "heap_le h h'" "wf_vector h' v'" "v_size v' = count" "contents h' v' = take count buf"
    by auto
  then show ?thesis by (simp add: vector_from_array_def)
qed

lemma pop_back_wf:
  assumes wf: "wf_vector h v" and pos: "0 < v_size v"
  shows "\<exists>h' v'. pop_back h d v = Inr (h', v')
     \<and> heap_le h h' \<and> wf_vector h' v' \<and> v_size v' = v_size v - 1
     \<and> contents h' v' = butlast (contents h v)"
proof -
  have ne: "contents h v \<noteq> []" using pos by (metis length_contents length_0_conv less_not_refl)
  have "v_size v - 1 \<le> length (contents h v)" by simp
  from vector_from_array_wf [OF this, of h d] obtain h' v' where
    r: "vector_from_array h d (Some (contents h v)) (v_size v - 1) = Inr (h', v')"
    and rest: "heap_le h h'" "wf_vector h' v'" "v_size v' = v_size v - 1"
    and c: "contents h' v' = take (v_size v - 1) (contents h v)"
    by blast
  have "butlast (contents h v) = take (v_size v - 1) (contents h v)"
    by (simp add: butlast_conv_take)
  with c have "contents h' v' = butlast (contents h v)" by simp
  moreover have "pop_back h d v = Inr (h', v')"
    using pos ne r by (simp add: pop_back_def to_vec_wf [OF wf])
  ultimately show ?thesis using rest by blast
qed

lemma operator_plus_result_wf:
  assumes wfa: "wf_vector h a" and wfb: "wf_vector h b"
  shows "\<exists>h' r. operator_plus_result h d a b = Inr (h', r)
     \<and> heap_le h h' \<and> wf_vector h' r
     \<and> contents h' r = (if v_size b = 0 then [] else contents h a @ contents h b)"
proof (cases "v_size b = 0")
  case True
  then show ?thesis by (simp add: operator_plus_result_def)
next
  case False
  then have ne: "contents h b \<noteq> []" by (metis length_contents length_0_conv)
  from push_back_batch_wf [OF wfa order_refl, of d "contents h b"] obtain h' r where
    "push_back_batch h d a (Some (contents h b)) (length (contents h b)) = Inr (h', r)"
    "heap_le h h'" "wf_vector h' r" "contents h' r = contents h a @ contents h b"
    by auto
  with False ne show ?thesis
    by (simp add: operator_plus_result_def to_vec_wf [OF wfb] del: length_contents)
qed

lemma operator_plus_wf:
  assumes wfa: "wf_vector h a" and wfb: "wf_vector h b"
  shows "(v_size b = 0 \<and> 0 < v_size a \<longrightarrow> operator_plus h d a b = Inl Assertion_failed)
     \<and> (v_size b = 0 \<and> v_size a = 0 \<longrightarrow> operator_plus h d a b = Inr (h, empty_vector))
     \<and> (0 < v_size b \<longrightarrow>
          (\<exists>h' r. operator_plus h d a b = Inr (h', r) \<and> heap_le h h' \<and> wf_vector h' r
             \<and> v_size r = v_size a + v_size b
             \<and> contents h' r = contents h a @ contents h b))"
proof (cases "v_size b = 0")
  case True
  then show ?thesis
    by (simp add: operator_plus_def operator_plus_result_def)
next
  case False
  from operator_plus_result_wf [OF assms, of d] False obtain h' r where
    r: "operator_plus_result h d a b = Inr (h', r)"
    and rest: "heap_le h h'" "wf_vector h' r"
    and c: "contents h' r = contents h a @ contents h b"
    by auto
  from c have "length (contents h' r) = length (contents h a @ contents h b)" by simp
  then have "v_size r = v_size a + v_size b" by simp
  with False r rest c show ?thesis
    by (simp add: operator_plus_def)
qed

subsection \<open>The self test check\_invariant\<close>

text \<open>
  Every well-formed vector of at most \<open>B ^ 7\<close> values passes \<open>check_invariant\<close>.
\<close>

lemma check_invariant_wf:
  assumes wf: "wf_vector h v" and sz: "v_size v \<le> BRANCHING_FACTOR ^ 7"
  shows "check_invariant v"
proof (cases "v_size v = 0")
  case True
  with wf show ?thesis
    by (simp add: wf_vector_def check_invariant_def vector_size_to_shift_def
        EMPTY_TREE_SHIFT_def BRANCHING_FACTOR_SHIFT_def)
next
  case False
  then have pos: "0 < v_size v" by simp
  from wf_vector_nonempty [OF wf pos] obtain l where
    l: "v_shift v = int l * BRANCHING_FACTOR_SHIFT"
    and low: "l = 0 \<or> BRANCHING_FACTOR ^ l < v_size v"
    by blast
  have "l < 7"
  proof (rule ccontr)
    assume "\<not> l < 7"
    then have "7 \<le> l" by simp
    then have "BRANCHING_FACTOR ^ 7 \<le> BRANCHING_FACTOR ^ l"
      by (intro power_increasing) (simp_all add: Suc_leI)
    with low sz \<open>7 \<le> l\<close> show False by auto
  qed
  then have "v_shift v < 32" "EMPTY_TREE_SHIFT \<le> v_shift v"
    by (simp_all add: l BRANCHING_FACTOR_SHIFT_def EMPTY_TREE_SHIFT_def)
  moreover from wf_vector_root_type [OF wf pos] have "get_type (v_root v) \<noteq> null_node"
    by (simp split: if_splits)
  ultimately show ?thesis
    using False wf_vector_shift [OF wf] by (simp add: check_invariant_def)
qed

lemma to_vec_empty_vector [simp]: "to_vec h empty_vector = Inr []"
  using to_vec_wf [OF wf_vector_empty, of h] by simp

lemma push_back_batch_count_0:
  "push_back_batch h d v (Some buf) 0 = push_back_batch h d v (Some []) 0"
proof -
  have r: "read_range buf 0 0 = read_range [] 0 0"
    by (simp add: read_range_def)
  have p: "push_back_batch_pad h d v buf 0 = push_back_batch_pad h d v [] 0"
    unfolding push_back_batch_pad_def Let_def min_0R r ..
  have l: "push_back_batch_loop h1 d v1 buf pos 0 = push_back_batch_loop h1 d v1 [] pos 0"
    for h1 :: "'a heap" and v1 pos
    by (simp add: push_back_batch_loop.simps)
  show ?thesis
    unfolding push_back_batch_def option.case p l ..
qed

lemma push_back_batch_empty_0:
  "push_back_batch h d empty_vector (Some buf) 0 = Inr (h, empty_vector)"
  by (simp add: push_back_batch_def push_back_batch_pad_def push_back_batch_loop.simps
      and_mask_mod)

lemma push_back_batch_null: "push_back_batch h d v None count = Inl Assertion_failed"
  by (simp add: push_back_batch_def)

section \<open>The claims\<close>

text \<open>
  C4 (persistence of store). For every well-formed vector \<open>s\<close>, index \<open>i < size\<close> and
  value \<open>x\<close>, \<open>store\<close> returns a vector \<open>s'\<close> with \<open>s'[i] = x\<close> and
  \<open>s'[j] = s[j]\<close> for every \<open>j \<noteq> i\<close>; \<open>s\<close> is unchanged: no node of the store
  before the call is modified, and every read of \<open>s\<close> after the call returns what it
  returned before.
\<close>

theorem store_persistence:
  assumes "wf_vector h s" and "i < v_size s"
  shows "\<exists>h' s'. store h s i x = Inr (h', s')
     \<and> operator_index h' s' i = Inr x
     \<and> (\<forall>j. j \<noteq> i \<longrightarrow> operator_index h' s' j = operator_index h s j)
     \<and> heap_le h h'
     \<and> (\<forall>j. operator_index h' s j = operator_index h s j)"
proof -
  from store_wf [OF assms, of x] obtain h' s' where
    st: "store h s i x = Inr (h', s')" and le: "heap_le h h'" and wf': "wf_vector h' s'"
    and sz: "v_size s' = v_size s"
    and c: "contents h' s' = (contents h s)[i := x]"
    by blast
  have wfs: "wf_vector h' s" using le assms(1) by (rule heap_le_wf_vector)
  have same: "contents h' s = contents h s" using le assms(1) by (rule heap_le_contents)
  have at': "operator_index h' s' j = (if j < v_size s then Inr ((contents h s)[i := x] ! j)
                                       else Inl Assertion_failed)" for j
    using operator_index_wf [OF wf', of j] operator_index_out_of_range [of j s' h']
    by (simp add: sz c)
  have at: "operator_index h0 s j = (if j < v_size s then Inr (contents h0 s ! j)
                                     else Inl Assertion_failed)" if "wf_vector h0 s" for j h0
    using operator_index_wf [OF that, of j] operator_index_out_of_range [of j s h0]
    by simp
  have "operator_index h' s' i = Inr x"
    using assms(2) by (simp add: at')
  moreover have "\<forall>j. j \<noteq> i \<longrightarrow> operator_index h' s' j = operator_index h s j"
    by (simp add: at' at [OF assms(1)])
  moreover have "\<forall>j. operator_index h' s j = operator_index h s j"
    by (simp add: at [OF wfs] at [OF assms(1)] same)
  ultimately show ?thesis
    using st le by blast
qed

theorem store_persistence_witness:
  "wf_vector example_heap example_vector \<and> 1 < v_size example_vector
   \<and> (\<exists>h' s'. store example_heap example_vector 1 99 = Inr (h', s')
        \<and> operator_index h' s' 1 = Inr 99
        \<and> operator_index h' s' 0 = Inr 10
        \<and> operator_index h' example_vector 1 = Inr 20)"
proof -
  have wf: "wf_vector example_heap example_vector" by (rule example_vector_wf)
  have i: "1 < v_size example_vector" by simp
  have a: "operator_index example_heap example_vector 0 = Inr 10"
    "operator_index example_heap example_vector 1 = Inr 20"
    using operator_index_wf [OF wf, of 0] operator_index_wf [OF wf, of 1]
    by (simp_all add: example_contents)
  from store_persistence [OF wf i, of 99] a wf i show ?thesis
    by (metis zero_neq_one)
qed

text \<open>
  C10 (frame of store). The vector that \<open>store\<close> returns has the size field and the
  shift field of \<open>s\<close>; its root handle is a new one.
\<close>

theorem store_frame:
  assumes "wf_vector h s" and "i < v_size s"
  shows "\<exists>h' s'. store h s i x = Inr (h', s')
     \<and> v_size s' = v_size s \<and> v_shift s' = v_shift s \<and> v_root s' \<noteq> v_root s"
  using store_wf [OF assms, of x] by blast

theorem store_frame_witness:
  "wf_vector example_heap example_vector33 \<and> 32 < v_size example_vector33
   \<and> (\<exists>h' s'. store example_heap example_vector33 32 7 = Inr (h', s')
        \<and> v_size s' = 33 \<and> v_shift s' = 5 \<and> v_root s' \<noteq> Inode_ref 0)"
proof -
  have wf: "wf_vector example_heap example_vector33" by (rule example_vector33_wf)
  have i: "32 < v_size example_vector33" by simp
  have "v_shift example_vector33 = 5" "v_root example_vector33 = Inode_ref 0"
    by (simp_all add: example_vector33_def)
  with store_frame [OF wf i, of 7] wf i show ?thesis
    by simp
qed

text \<open>
  C7 (equality). For well-formed vectors \<open>a\<close> and \<open>b\<close> of one store, \<open>operator==\<close>
  returns true if and only if they have the same size and equal values at every
  index. The statement holds for every pair of roots, so the returns on equal root
  pointers give the same answer as the comparison of the values.
\<close>

theorem operator_eq_correct:
  assumes "wf_vector h a" and "wf_vector h b"
  shows "operator_eq h a b
     = Inr (v_size a = v_size b
            \<and> (\<forall>i<v_size a. operator_index h a i = operator_index h b i))"
proof -
  have "contents h a = contents h b
     \<longleftrightarrow> v_size a = v_size b \<and> (\<forall>i<v_size a. operator_index h a i = operator_index h b i)"
  proof (cases "v_size a = v_size b")
    case True
    then have "operator_index h a i = operator_index h b i
       \<longleftrightarrow> contents h a ! i = contents h b ! i" if "i < v_size a" for i
      using that operator_index_wf [OF assms(1), of i] operator_index_wf [OF assms(2), of i]
      by simp
    with True show ?thesis
      by (simp add: list_eq_iff_nth_eq)
  next
    case False
    then show ?thesis by (metis length_contents)
  qed
  then show ?thesis
    by (simp only: operator_eq_wf [OF assms])
qed

theorem operator_eq_correct_witness:
  "wf_vector example_heap example_vector \<and> wf_vector example_heap example_vector2
   \<and> operator_eq example_heap example_vector example_vector2 = Inr False
   \<and> operator_index example_heap example_vector 2 \<noteq> operator_index example_heap example_vector2 2
   \<and> operator_eq example_heap example_vector example_vector = Inr True"
proof -
  have wf: "wf_vector example_heap example_vector" "wf_vector example_heap example_vector2"
    by (rule example_vector_wf, rule example_vector2_wf)
  have a: "operator_index example_heap example_vector 2 = Inr 30"
    "operator_index example_heap example_vector2 2 = Inr 31"
    using operator_index_wf [OF wf(1), of 2] operator_index_wf [OF wf(2), of 2]
    by (simp_all add: example_contents)
  have "\<exists>i<3::nat. operator_index example_heap example_vector i
                   \<noteq> operator_index example_heap example_vector2 i"
    using a by (intro exI [of _ 2]) simp
  then have "operator_eq example_heap example_vector example_vector2 = Inr False"
    using operator_eq_correct [OF wf] by simp
  moreover have "operator_eq example_heap example_vector example_vector = Inr True"
    using operator_eq_correct [OF wf(1) wf(1)] by simp
  ultimately show ?thesis
    using wf a by simp
qed

text \<open>
  C5 (append identity). For every well-formed vector \<open>s\<close> and value \<open>x\<close>,
  \<open>push_back\<close> returns a vector of size \<open>size + 1\<close> whose value at index \<open>size\<close>
  is \<open>x\<close> and whose value at every index \<open>j < size\<close> is the value of \<open>s\<close> at \<open>j\<close>.
\<close>

theorem push_back_append:
  assumes "wf_vector h s"
  shows "\<exists>h' s'. push_back h d s x = Inr (h', s')
     \<and> v_size s' = v_size s + 1
     \<and> operator_index h' s' (v_size s) = Inr x
     \<and> (\<forall>j<v_size s. operator_index h' s' j = operator_index h s j)"
proof -
  from push_back_1_wf [OF assms, of d x] obtain h' s' where
    pb: "push_back h d s x = Inr (h', s')" and wf': "wf_vector h' s'"
    and sz: "v_size s' = Suc (v_size s)"
    and c: "contents h' s' = contents h s @ [x]"
    unfolding push_back_def by blast
  have "(contents h s @ [x]) ! v_size s = x"
    using nth_append_length [of "contents h s" x "[]"] by simp
  then have "operator_index h' s' (v_size s) = Inr x"
    by (simp add: operator_index_total [OF wf'] sz c)
  moreover have "\<forall>j<v_size s. operator_index h' s' j = operator_index h s j"
    by (simp add: operator_index_total [OF wf'] operator_index_total [OF assms] sz c nth_append)
  ultimately show ?thesis using pb sz by simp
qed

theorem push_back_append_witness:
  "wf_vector example_heap example_vector
   \<and> (\<exists>h' s'. push_back example_heap 0 example_vector 40 = Inr (h', s')
        \<and> v_size s' = 4
        \<and> operator_index h' s' 3 = Inr 40
        \<and> operator_index h' s' 2 = Inr 30)"
proof -
  have wf: "wf_vector example_heap example_vector" by (rule example_vector_wf)
  have "operator_index example_heap example_vector 2 = Inr 30"
    by (simp add: operator_index_total [OF wf] example_contents)
  with push_back_append [OF wf, of 0 40] wf show ?thesis
    by auto
qed

text \<open>
  C2 (the scenario of 1024 appends), as the code has it. Starting from the empty
  vector and appending \<open>0, 1, 2, \<dots>\<close> in order: after 32 appends the size is 32 and
  the shift is 0; after 33 appends the shift is 5; after 1024 appends the size is
  1024, the shift is 5, and the value at every index \<open>k\<close> is \<open>k\<close>. (A tree of shift
  5 holds \<open>32 * 32 = 1024\<close> values.)
\<close>

theorem push_back_scenario:
  "result_size (push_back_values empty_heap d empty_vector (map int [0..<32])) = Inr 32
   \<and> result_shift (push_back_values empty_heap d empty_vector (map int [0..<32])) = Inr 0
   \<and> result_shift (push_back_values empty_heap d empty_vector (map int [0..<33])) = Inr 5
   \<and> result_size (push_back_values empty_heap d empty_vector (map int [0..<1024])) = Inr 1024
   \<and> result_shift (push_back_values empty_heap d empty_vector (map int [0..<1024])) = Inr 5
   \<and> (\<exists>h v. push_back_values empty_heap d empty_vector (map int [0..<1024]) = Inr (h, v)
         \<and> (\<forall>k<1024. operator_index h v k = Inr (int k)))"
proof -
  from push_back_upto [of d 32] have
    "result_size (push_back_values empty_heap d empty_vector (map int [0..<32])) = Inr 32"
    "result_shift (push_back_values empty_heap d empty_vector (map int [0..<32])) = Inr 0"
    by (auto simp: result_size_def result_shift_def vector_size_to_shift_values)
  moreover from push_back_upto [of d 33] have
    "result_shift (push_back_values empty_heap d empty_vector (map int [0..<33])) = Inr 5"
    by (auto simp: result_shift_def vector_size_to_shift_33)
  moreover from push_back_upto [of d 1024] have
    "result_size (push_back_values empty_heap d empty_vector (map int [0..<1024])) = Inr 1024"
    "result_shift (push_back_values empty_heap d empty_vector (map int [0..<1024])) = Inr 5"
    "\<exists>h v. push_back_values empty_heap d empty_vector (map int [0..<1024]) = Inr (h, v)
         \<and> (\<forall>k<1024. operator_index h v k = Inr (int k))"
    by (auto simp: result_size_def result_shift_def vector_size_to_shift_values)
  ultimately show ?thesis by blast
qed

theorem push_back_scenario_witness:
  "(1000::nat) < 1024
   \<and> (\<exists>h v. push_back_values empty_heap 0 empty_vector (map int [0..<1024]) = Inr (h, v)
         \<and> operator_index h v 1000 = Inr 1000)"
proof -
  from push_back_scenario [of 0] obtain h v where
    "push_back_values empty_heap 0 empty_vector (map int [0..<1024]) = Inr (h, v)"
    and a: "\<forall>k<1024. operator_index h v k = Inr (int k)"
    by blast
  moreover from a have "operator_index h v 1000 = Inr (int 1000)" by simp
  ultimately show ?thesis by simp
qed

text \<open>
  C2 as the specification states it fails: after 1024 appends the shift is 5, not 10.
\<close>

theorem push_back_scenario_counterexample:
  "result_shift (push_back_values empty_heap (0::int) empty_vector (map int [0..<1024])) = Inr 5
   \<and> result_shift (push_back_values empty_heap (0::int) empty_vector (map int [0..<1024]))
        \<noteq> Inr 10"
proof -
  from push_back_upto [of 0 1024] have
    "result_shift (push_back_values empty_heap 0 empty_vector (map int [0..<1024])) = Inr 5"
    by (auto simp: result_shift_def vector_size_to_shift_values)
  then show ?thesis by simp
qed

text \<open>
  C6 (round trip through a flat buffer). For every buffer \<open>buf\<close>, the vector
  constructed from \<open>buf\<close> is materialised by \<open>to_vec\<close> as \<open>buf\<close>; and for every
  well-formed vector \<open>s\<close>, the vector constructed from \<open>to_vec\<close> of \<open>s\<close> is equal to
  \<open>s\<close> by \<open>operator==\<close>.
\<close>

theorem flat_buffer_round_trip:
  "(\<exists>h' v. vector_from_std_vector h d buf = Inr (h', v) \<and> to_vec h' v = Inr buf)
   \<and> (wf_vector h s \<longrightarrow>
        (\<exists>xs h' v. to_vec h s = Inr xs \<and> vector_from_std_vector h d xs = Inr (h', v)
           \<and> operator_eq h' v s = Inr True))"
proof (intro conjI impI)
  from vector_from_std_vector_wf [of h d buf] obtain h' v where
    "vector_from_std_vector h d buf = Inr (h', v)" "wf_vector h' v" "contents h' v = buf"
    by blast
  then show "\<exists>h' v. vector_from_std_vector h d buf = Inr (h', v) \<and> to_vec h' v = Inr buf"
    using to_vec_wf [of h' v] by simp
next
  assume wf: "wf_vector h s"
  from vector_from_std_vector_wf [of h d "contents h s"] obtain h' v where
    c: "vector_from_std_vector h d (contents h s) = Inr (h', v)"
    and le: "heap_le h h'" and wfv: "wf_vector h' v" and cv: "contents h' v = contents h s"
    by blast
  have wfs: "wf_vector h' s" by (rule heap_le_wf_vector [OF le wf])
  have "contents h' s = contents h s" by (rule heap_le_contents [OF le wf])
  with operator_eq_wf [OF wfv wfs] cv have "operator_eq h' v s = Inr True" by simp
  with c to_vec_wf [OF wf]
  show "\<exists>xs h' v. to_vec h s = Inr xs \<and> vector_from_std_vector h d xs = Inr (h', v)
           \<and> operator_eq h' v s = Inr True"
    by blast
qed

theorem flat_buffer_round_trip_witness:
  "wf_vector example_heap example_vector
   \<and> (\<exists>h' v. vector_from_std_vector example_heap 0 [10, 20, 30] = Inr (h', v)
         \<and> operator_eq h' v example_vector = Inr True)
   \<and> (\<exists>h' v. vector_from_std_vector empty_heap (0::int) [7, 8, 9] = Inr (h', v)
         \<and> to_vec h' v = Inr [7, 8, 9])"
proof -
  have wf: "wf_vector example_heap example_vector" by (rule example_vector_wf)
  have t: "to_vec example_heap example_vector = Inr [10, 20, 30]"
    by (simp add: to_vec_wf [OF wf] example_contents)
  from flat_buffer_round_trip [of example_heap 0 "[]" example_vector] wf t
  have "\<exists>h' v. vector_from_std_vector example_heap 0 [10, 20, 30] = Inr (h', v)
         \<and> operator_eq h' v example_vector = Inr True"
    by auto
  moreover from flat_buffer_round_trip [of empty_heap "0::int" "[7, 8, 9]" empty_vector]
  have "\<exists>h' v. vector_from_std_vector empty_heap (0::int) [7, 8, 9] = Inr (h', v)
         \<and> to_vec h' v = Inr [7, 8, 9]"
    by blast
  ultimately show ?thesis using wf by blast
qed

text \<open>
  C8 (pop\_back). For every well-formed vector \<open>s\<close> of size \<open>> 0\<close>, \<open>pop_back\<close> returns
  a vector of size \<open>size - 1\<close> whose value at every index \<open>j \<le> size - 2\<close> (that is,
  \<open>j < size - 1\<close>) is the value of \<open>s\<close> at \<open>j\<close>, and \<open>s\<close> is unchanged: every read of \<open>s\<close>
  in the resulting store returns what it returned before.
\<close>

theorem pop_back_contract:
  assumes "wf_vector h s" and "0 < v_size s"
  shows "\<exists>h' s'. pop_back h d s = Inr (h', s')
     \<and> v_size s' = v_size s - 1
     \<and> (\<forall>j. j < v_size s - 1 \<longrightarrow> operator_index h' s' j = operator_index h s j)
     \<and> (\<forall>j. operator_index h' s j = operator_index h s j)
     \<and> to_vec h' s = to_vec h s"
proof -
  from pop_back_wf [OF assms, of d] obtain h' s' where
    pb: "pop_back h d s = Inr (h', s')" and le: "heap_le h h'" and wf': "wf_vector h' s'"
    and sz: "v_size s' = v_size s - 1"
    and c: "contents h' s' = butlast (contents h s)"
    by blast
  have wfs: "wf_vector h' s" by (rule heap_le_wf_vector [OF le assms(1)])
  have cs: "contents h' s = contents h s" by (rule heap_le_contents [OF le assms(1)])
  have len: "length (contents h s) = v_size s" by (rule length_contents)
  have "\<forall>j. j < v_size s - 1 \<longrightarrow> operator_index h' s' j = operator_index h s j"
    using assms(2)
    by (auto simp add: operator_index_total [OF wf'] operator_index_total [OF assms(1)] sz c
        nth_butlast len)
  moreover have "\<forall>j. operator_index h' s j = operator_index h s j"
    by (simp add: operator_index_total [OF wfs] operator_index_total [OF assms(1)] cs)
  moreover have "to_vec h' s = to_vec h s"
    by (simp add: to_vec_wf [OF wfs] to_vec_wf [OF assms(1)] cs)
  ultimately show ?thesis using pb sz by blast
qed

theorem pop_back_contract_witness:
  "wf_vector example_heap example_vector \<and> 0 < v_size example_vector
   \<and> (\<exists>h' s'. pop_back example_heap 0 example_vector = Inr (h', s')
        \<and> v_size s' = 2
        \<and> operator_index h' s' 0 = Inr 10
        \<and> operator_index h' s' 1 = Inr 20
        \<and> operator_index h' example_vector 2 = Inr 30)"
proof -
  have wf: "wf_vector example_heap example_vector" by (rule example_vector_wf)
  have a: "operator_index example_heap example_vector 0 = Inr 10"
    "operator_index example_heap example_vector 1 = Inr 20"
    "operator_index example_heap example_vector 2 = Inr 30"
    by (simp_all add: operator_index_total [OF wf] example_contents)
  from pop_back_contract [OF wf, of 0] obtain h' s' where
    pb: "pop_back example_heap 0 example_vector = Inr (h', s')"
    and sz: "v_size s' = v_size example_vector - 1"
    and low: "\<forall>j. j < v_size example_vector - 1
          \<longrightarrow> operator_index h' s' j = operator_index example_heap example_vector j"
    and old: "\<forall>j. operator_index h' example_vector j
          = operator_index example_heap example_vector j"
    by auto
  from low have "operator_index h' s' 0 = Inr 10" "operator_index h' s' 1 = Inr 20"
    using a by simp_all
  moreover from old have "operator_index h' example_vector 2 = Inr 30"
    using a by simp
  moreover from sz have "v_size s' = 2" by simp
  ultimately show ?thesis using wf pb by simp
qed

text \<open>
  C9 (canonical encoding). The well-formed vectors are closed under the public
  operations, and every vector that an operation produces is canonical: if its
  size is 0 its root is the null handle and its shift is \<open>EMPTY_TREE_SHIFT\<close>;
  otherwise its root is not null and its shift is \<open>vector_size_to_shift\<close> of its
  size. The operations: the default constructor, the two constructors from a
  buffer, \<open>store\<close>, \<open>push_back\<close>, \<open>pop_back\<close>, \<open>push_back_batch\<close>, \<open>operator+\<close> (whenever
  it returns, and also the value it builds before its last assertion) and the copy
  constructor.
\<close>

theorem canonical_encoding:
  assumes "wf_vector h s" and "wf_vector h t"
  shows "canonical empty_vector
     \<and> EMPTY_TREE_SHIFT = - BRANCHING_FACTOR_SHIFT
     \<and> (\<exists>h' v. vector_from_std_vector h d xs = Inr (h', v) \<and> wf_vector h' v \<and> canonical v)
     \<and> (count \<le> length xs \<longrightarrow>
          (\<exists>h' v. vector_from_array h d (Some xs) count = Inr (h', v)
             \<and> wf_vector h' v \<and> canonical v))
     \<and> (i < v_size s \<longrightarrow>
          (\<exists>h' v. store h s i x = Inr (h', v) \<and> wf_vector h' v \<and> canonical v))
     \<and> (\<exists>h' v. push_back h d s x = Inr (h', v) \<and> wf_vector h' v \<and> canonical v)
     \<and> (0 < v_size s \<longrightarrow>
          (\<exists>h' v. pop_back h d s = Inr (h', v) \<and> wf_vector h' v \<and> canonical v))
     \<and> (count \<le> length xs \<longrightarrow>
          (\<exists>h' v. push_back_batch h d s (Some xs) count = Inr (h', v)
             \<and> wf_vector h' v \<and> canonical v))
     \<and> (\<forall>h' v. operator_plus h d s t = Inr (h', v) \<longrightarrow> wf_vector h' v \<and> canonical v)
     \<and> (\<exists>h' v. operator_plus_result h d s t = Inr (h', v) \<and> wf_vector h' v \<and> canonical v)
     \<and> wf_vector h (copy_vector s) \<and> canonical (copy_vector s)"
proof -
  have c0: "canonical empty_vector"
    by (rule canonical_wf [OF wf_vector_empty])
  have c1: "EMPTY_TREE_SHIFT = - BRANCHING_FACTOR_SHIFT"
    by (simp add: EMPTY_TREE_SHIFT_def)
  have c2: "\<exists>h' v. vector_from_std_vector h d xs = Inr (h', v) \<and> wf_vector h' v \<and> canonical v"
    using vector_from_std_vector_wf [of h d xs] canonical_wf by blast
  have c3: "count \<le> length xs \<longrightarrow>
          (\<exists>h' v. vector_from_array h d (Some xs) count = Inr (h', v)
             \<and> wf_vector h' v \<and> canonical v)"
    using vector_from_array_wf [of count xs h d] canonical_wf by blast
  have c4: "i < v_size s \<longrightarrow>
          (\<exists>h' v. store h s i x = Inr (h', v) \<and> wf_vector h' v \<and> canonical v)"
    using store_wf [OF assms(1), of i x] canonical_wf by blast
  have c5: "\<exists>h' v. push_back h d s x = Inr (h', v) \<and> wf_vector h' v \<and> canonical v"
    using push_back_1_wf [OF assms(1), of d x] canonical_wf unfolding push_back_def by blast
  have c6: "0 < v_size s \<longrightarrow>
          (\<exists>h' v. pop_back h d s = Inr (h', v) \<and> wf_vector h' v \<and> canonical v)"
    using pop_back_wf [OF assms(1), of d] canonical_wf by blast
  have c7: "count \<le> length xs \<longrightarrow>
          (\<exists>h' v. push_back_batch h d s (Some xs) count = Inr (h', v)
             \<and> wf_vector h' v \<and> canonical v)"
    using push_back_batch_wf [OF assms(1), of count xs d] canonical_wf by blast
  have c9: "\<exists>h' v. operator_plus_result h d s t = Inr (h', v) \<and> wf_vector h' v \<and> canonical v"
    using operator_plus_result_wf [OF assms, of d] canonical_wf by blast
  have c8: "\<forall>h' v. operator_plus h d s t = Inr (h', v) \<longrightarrow> wf_vector h' v \<and> canonical v"
  proof (intro allI impI)
    fix h' v assume p: "operator_plus h d s t = Inr (h', v)"
    from c9 obtain h1 v1 where r: "operator_plus_result h d s t = Inr (h1, v1)"
      and w: "wf_vector h1 v1" "canonical v1" by blast
    from p r have "h' = h1 \<and> v = v1"
      by (simp add: operator_plus_def split: if_splits)
    with w show "wf_vector h' v \<and> canonical v" by simp
  qed
  have cp: "copy_vector s = s" by (simp add: copy_vector_def)
  have c10: "wf_vector h (copy_vector s) \<and> canonical (copy_vector s)"
    unfolding cp using assms(1) canonical_wf by blast
  from c0 c1 c2 c3 c4 c5 c6 c7 c8 c9 c10 show ?thesis by blast
qed

theorem canonical_encoding_witness:
  "wf_vector example_heap example_vector33 \<and> wf_vector example_heap example_vector
   \<and> (\<exists>h' v. push_back example_heap 0 example_vector33 7 = Inr (h', v)
         \<and> v_size v = 34 \<and> get_type (v_root v) \<noteq> null_node \<and> v_shift v = 5)
   \<and> (\<exists>h' v. pop_back example_heap 0 example_vector33 = Inr (h', v)
         \<and> v_size v = 32 \<and> get_type (v_root v) \<noteq> null_node \<and> v_shift v = 0)
   \<and> (\<exists>h' v. operator_plus example_heap 0 example_vector33 example_vector = Inr (h', v)
         \<and> v_size v = 36 \<and> get_type (v_root v) \<noteq> null_node \<and> v_shift v = 5)"
proof -
  have wf: "wf_vector example_heap example_vector33" "wf_vector example_heap example_vector"
    by (rule example_vector33_wf, rule example_vector_wf)
  note ce = canonical_encoding [OF wf, of 0 "[]" 0 0 7]
  have s34: "vector_size_to_shift 34 = 5" "vector_size_to_shift 36 = 5"
    "vector_size_to_shift 32 = 0"
    using vector_size_to_shift_level [of 34 1] vector_size_to_shift_level [of 36 1]
      vector_size_to_shift_level [of 32 0]
    by (simp_all add: B_numeral BRANCHING_FACTOR_SHIFT_def)
  from push_back_1_wf [OF wf(1), of 0 7] obtain h1 v1 where
    p1: "push_back example_heap 0 example_vector33 7 = Inr (h1, v1)" and z1: "v_size v1 = 34"
    unfolding push_back_def by auto
  from ce p1 have "canonical v1" by auto
  with z1 have a: "get_type (v_root v1) \<noteq> null_node \<and> v_shift v1 = 5"
    by (simp add: canonical_def s34)
  from pop_back_wf [OF wf(1), of 0] obtain h2 v2 where
    p2: "pop_back example_heap 0 example_vector33 = Inr (h2, v2)" and z2: "v_size v2 = 32"
    by auto
  from ce p2 have "canonical v2" by auto
  with z2 have b: "get_type (v_root v2) \<noteq> null_node \<and> v_shift v2 = 0"
    by (simp add: canonical_def s34)
  from operator_plus_wf [OF wf, of 0] obtain h3 v3 where
    p3: "operator_plus example_heap 0 example_vector33 example_vector = Inr (h3, v3)"
    and z3: "v_size v3 = 36"
    by auto
  from ce p3 have "canonical v3" by blast
  with z3 have c: "get_type (v_root v3) \<noteq> null_node \<and> v_shift v3 = 5"
    by (simp add: canonical_def s34)
  from wf p1 z1 a p2 z2 b p3 z3 c show ?thesis by blast
qed

text \<open>
  C3 (an empty input), as the code has it. \<open>push_back_batch\<close> and the constructor
  from an array assert that the pointer is not null, also for \<open>count = 0\<close>. With a
  pointer that is not null and \<open>count = 0\<close>, no value of the buffer is read (the
  result is the same for every buffer, also for a buffer with no readable
  value), the size and the values of the vector are unchanged, and the empty
  vector extended by nothing is the empty vector.
\<close>

theorem extend_empty_input:
  assumes "wf_vector h s"
  shows "(\<exists>h' s'. push_back_batch h d s (Some buf) 0 = Inr (h', s')
            \<and> v_size s' = v_size s \<and> to_vec h' s' = to_vec h s)
     \<and> push_back_batch h d s (Some buf) 0 = push_back_batch h d s (Some []) 0
     \<and> push_back_batch h d empty_vector (Some buf) 0 = Inr (h, empty_vector)
     \<and> vector_from_array h d (Some buf) 0 = Inr (h, empty_vector)
     \<and> push_back_batch h d s None 0 = Inl Assertion_failed
     \<and> vector_from_array h d None 0 = Inl Assertion_failed"
proof -
  from push_back_batch_wf [OF assms, of 0 buf d] obtain h' s' where
    pb: "push_back_batch h d s (Some buf) 0 = Inr (h', s')" and wf': "wf_vector h' s'"
    and sz: "v_size s' = v_size s" and c: "contents h' s' = contents h s"
    by auto
  have "to_vec h' s' = to_vec h s"
    by (simp add: to_vec_wf [OF wf'] to_vec_wf [OF assms] c)
  with pb sz have a: "\<exists>h' s'. push_back_batch h d s (Some buf) 0 = Inr (h', s')
            \<and> v_size s' = v_size s \<and> to_vec h' s' = to_vec h s"
    by blast
  have b: "vector_from_array h d (Some buf) 0 = Inr (h, empty_vector)"
    by (simp add: vector_from_array_def push_back_batch_empty_0)
  have e: "vector_from_array h d None 0 = Inl Assertion_failed"
    by (simp add: vector_from_array_def)
  from a b e push_back_batch_count_0 [of h d s buf] push_back_batch_empty_0 [of h d buf]
    push_back_batch_null [of h d s 0]
  show ?thesis by blast
qed

theorem extend_empty_input_witness:
  "wf_vector example_heap example_vector
   \<and> (\<exists>h' s'. push_back_batch example_heap 0 example_vector (Some []) 0 = Inr (h', s')
         \<and> v_size s' = 3 \<and> to_vec h' s' = Inr [10, 20, 30])"
proof -
  have wf: "wf_vector example_heap example_vector" by (rule example_vector_wf)
  have t: "to_vec example_heap example_vector = Inr [10, 20, 30]"
    by (simp add: to_vec_wf [OF wf] example_contents)
  from extend_empty_input [OF wf, of 0 "[]"] wf t show ?thesis by auto
qed

text \<open>
  C3 as the specification states it fails: with a null pointer and \<open>count = 0\<close> on
  the empty vector, \<open>push_back_batch\<close> and the constructor from an array stop at
  their assertion and yield no vector.
\<close>

theorem extend_empty_input_counterexample:
  "push_back_batch empty_heap (0::int) empty_vector None 0 = Inl Assertion_failed
   \<and> vector_from_array empty_heap (0::int) None 0 = Inl Assertion_failed
   \<and> push_back_batch empty_heap (0::int) empty_vector None 0 \<noteq> Inr (empty_heap, empty_vector)"
  by (simp add: push_back_batch_def vector_from_array_def)

text \<open>
  C1 (concatenation), evaluated where the code departs from it. For \<open>a\<close> holding
  \<open>10, 20, 30\<close> and \<open>b\<close> empty, \<open>operator+\<close> leaves its result default-constructed:
  the vector it has built is empty, not \<open>a\<close>, and its last assertion
  \<open>result.size() == a.size() + b.size()\<close> fails.
\<close>

theorem operator_plus_empty_right:
  "to_vec example_heap example_vector = Inr [10, 20, 30]
   \<and> to_vec example_heap empty_vector = Inr []
   \<and> operator_plus_result example_heap 0 example_vector empty_vector
       = Inr (example_heap, empty_vector)
   \<and> operator_plus example_heap 0 example_vector empty_vector = Inl Assertion_failed"
proof -
  have wf: "wf_vector example_heap example_vector" by (rule example_vector_wf)
  have "to_vec example_heap example_vector = Inr [10, 20, 30]"
    by (simp add: to_vec_wf [OF wf] example_contents)
  moreover have r: "operator_plus_result example_heap 0 example_vector empty_vector
       = Inr (example_heap, empty_vector)"
    by (simp add: operator_plus_result_def)
  moreover have "operator_plus example_heap 0 example_vector empty_vector = Inl Assertion_failed"
    by (simp add: operator_plus_def r)
  ultimately show ?thesis by simp
qed

end
